theory Spec2Isabelle
  imports Complex_Main "HOL-Library.List_Lexorder" "HOL-Library.Extended_Nat"
begin

section \<open>Text\<close>

text \<open>
  A Python \<open>str\<close> is a sequence of Unicode code points. It is modelled as a list of
  integers, one per code point, so that \<open>length\<close> counts what Python's \<open>len\<close>
  counts. \<open>u\<close> turns an ASCII literal into such a list.
\<close>

type_synonym ustr = "int list"

definition u :: "string \<Rightarrow> ustr" where
  "u s = map of_char s"

section \<open>Errors and JSON values\<close>

text \<open>The exceptions that the modelled functions can raise.\<close>

datatype error =
    TypeError
  | KeyError
  | UnicodeDecodeError
  | UnicodeEncodeError
  | JSONDecodeError
  | AttributeError

text \<open>
  What \<open>json.load\<close> returns: \<open>None\<close>, booleans, numbers, strings, lists, and
  dictionaries in insertion order.
\<close>

datatype json =
    JNull
  | JBool bool
  | JInt int
  | JFloat rat
  | JStr ustr
  | JArr "json list"
  | JObj "(ustr \<times> json) list"

section \<open>Deduplication of reference lists (main.py, remove\_duplicates)\<close>

text \<open>
  \<open>json.dumps(item, sort_keys=True)\<close> writes the dictionaries of an entry with their keys
  in ascending order, at every depth. The serialisation is represented by the key-sorted
  value itself.
\<close>

fun dumps_sorted :: "json \<Rightarrow> json" where
  "dumps_sorted (JArr xs) = JArr (map dumps_sorted xs)"
| "dumps_sorted (JObj kvs) = JObj (sort_key fst (map (\<lambda>(k, v). (k, dumps_sorted v)) kvs))"
| "dumps_sorted v = v"

text \<open>
  \<open>hashlib.md5(json.dumps(item, sort_keys=True).encode()).hexdigest()\<close>. MD5 is taken as
  free of collisions: two entries have the same digest exactly when their key-sorted
  serialisations are equal, so the digest is represented by the serialisation. The loop
  below is written for an arbitrary digest function, and the facts proved about it hold for
  every digest function, with or without collisions.
\<close>

definition item_hash :: "json \<Rightarrow> json" where
  "item_hash item = dumps_sorted item"

text \<open>
  The loop of \<open>remove_duplicates\<close>: \<open>unique_items\<close> is the set of digests seen so far,
  \<open>result\<close> the list built so far.
\<close>

fun remove_duplicates_loop :: "('a \<Rightarrow> 'h) \<Rightarrow> 'h set \<Rightarrow> 'a list \<Rightarrow> 'a list \<Rightarrow> 'a list" where
  "remove_duplicates_loop h unique_items result [] = result"
| "remove_duplicates_loop h unique_items result (item # data) =
     (if h item \<notin> unique_items
      then remove_duplicates_loop h (insert (h item) unique_items) (result @ [item]) data
      else remove_duplicates_loop h unique_items result data)"

definition remove_duplicates :: "json list \<Rightarrow> json list" where
  "remove_duplicates data = remove_duplicates_loop item_hash {} [] data"

section \<open>Properties of deduplication\<close>

lemma remove_duplicates_loop_result:
  "remove_duplicates_loop h S acc xs = acc @ remove_duplicates_loop h S [] xs"
proof (induction xs arbitrary: S acc)
  case Nil
  then show ?case by simp
next
  case (Cons x xs)
  show ?case
    using Cons.IH [of "insert (h x) S" "acc @ [x]"] Cons.IH [of "insert (h x) S" "[x]"]
      Cons.IH [of S acc]
    by simp
qed

lemma remove_duplicates_loop_fresh:
  "distinct (map h (remove_duplicates_loop h S [] xs)) \<and>
   h ` set (remove_duplicates_loop h S [] xs) \<inter> S = {}"
proof (induction xs arbitrary: S)
  case Nil
  then show ?case by simp
next
  case (Cons x xs)
  show ?case
  proof (cases "h x \<in> S")
    case True
    then show ?thesis using Cons.IH [of S] by simp
  next
    case False
    have step: "remove_duplicates_loop h S [] (x # xs) =
        x # remove_duplicates_loop h (insert (h x) S) [] xs"
      using False remove_duplicates_loop_result [of h "insert (h x) S" "[x]" xs] by simp
    from Cons.IH [of "insert (h x) S"] False show ?thesis
      unfolding step by auto
  qed
qed

lemma remove_duplicates_loop_keeps:
  "distinct (map h ys) \<Longrightarrow> h ` set ys \<inter> S = {} \<Longrightarrow> remove_duplicates_loop h S [] ys = ys"
proof (induction ys arbitrary: S)
  case Nil
  then show ?case by simp
next
  case (Cons y ys)
  from Cons.prems have fresh: "h y \<notin> S" by auto
  from Cons.prems have rest: "distinct (map h ys)" "h ` set ys \<inter> insert (h y) S = {}"
    by auto
  have "remove_duplicates_loop h S [] (y # ys) = y # remove_duplicates_loop h (insert (h y) S) [] ys"
    using fresh remove_duplicates_loop_result [of h "insert (h y) S" "[y]" ys] by simp
  then show ?case using Cons.IH [OF rest] by simp
qed

lemma remove_duplicates_loop_idem:
  "remove_duplicates_loop h {} [] (remove_duplicates_loop h {} [] xs) =
   remove_duplicates_loop h {} [] xs"
  using remove_duplicates_loop_fresh [of h "{}" xs]
  by (intro remove_duplicates_loop_keeps) auto

text \<open>
  Claim C8. Applying \<open>remove_duplicates\<close> to its own result gives that result again:
  deduplication by content hash is idempotent, and a second pass removes nothing.
\<close>

theorem remove_duplicates_idempotent:
  "remove_duplicates (remove_duplicates data) = remove_duplicates data"
  unfolding remove_duplicates_def by (rule remove_duplicates_loop_idem)

section \<open>Characters\<close>

text \<open>
  The classes \<open>\d\<close>, \<open>\s\<close> and \<open>\w\<close> and the case folding of \<open>re.IGNORECASE\<close>, on the
  code points of ASCII. Python's patterns on \<open>str\<close> also put letters, digits and spaces
  outside ASCII into these classes; they are left out here, and every statement below that
  speaks of word characters, digits, spaces or letter case is a statement about ASCII text.
  The text that record assembly reads is ASCII: \<open>extract_text\<close> passes every line through
  \<open>remove_unrecognized_characters\<close> before writing it.
\<close>

definition is_digit :: "int \<Rightarrow> bool" where
  "is_digit c = (48 \<le> c \<and> c \<le> 57)"

definition is_space :: "int \<Rightarrow> bool" where
  "is_space c = ((9 \<le> c \<and> c \<le> 13) \<or> (28 \<le> c \<and> c \<le> 32))"

definition is_upper :: "int \<Rightarrow> bool" where
  "is_upper c = (65 \<le> c \<and> c \<le> 90)"

definition is_lower :: "int \<Rightarrow> bool" where
  "is_lower c = (97 \<le> c \<and> c \<le> 122)"

definition is_word :: "int \<Rightarrow> bool" where
  "is_word c = (is_digit c \<or> is_upper c \<or> is_lower c \<or> c = 95)"

definition lower :: "int \<Rightarrow> int" where
  "lower c = (if is_upper c then c + 32 else c)"

definition upper :: "int \<Rightarrow> int" where
  "upper c = (if is_lower c then c - 32 else c)"

section \<open>Patterns\<close>

text \<open>
  The fragment of the pattern language of \<open>re\<close> that the patterns of the program use.
  \<open>Cls neg as\<close> is a character class \<open>[...]\<close> (\<open>neg\<close> for \<open>[^...]\<close>), \<open>Rep lo hi greedy r\<close> is
  a repetition with at least \<open>lo\<close> and, for \<open>hi = Some h\<close>, at most \<open>h\<close> iterations,
  \<open>Grp n r\<close> is the capture group number \<open>n\<close>, \<open>Ahead r\<close> is \<open>(?=r)\<close>, and \<open>Bol\<close>, \<open>Eol\<close>,
  \<open>Wb\<close> are \<open>^\<close>, \<open>$\<close> and \<open>\b\<close> without \<open>re.MULTILINE\<close>.
\<close>

datatype atom = Ch int | Rng int int | Dig | Spc | NSpc | Wrd

fun atom_has :: "atom \<Rightarrow> int \<Rightarrow> bool" where
  "atom_has (Ch a) c = (c = a)"
| "atom_has (Rng a b) c = (a \<le> c \<and> c \<le> b)"
| "atom_has Dig c = is_digit c"
| "atom_has Spc c = is_space c"
| "atom_has NSpc c = (\<not> is_space c)"
| "atom_has Wrd c = is_word c"

datatype item = Lit int | Cls bool "atom list" | Dot

datatype regex =
    One item
  | Seq regex regex
  | Alt regex regex
  | Rep nat "nat option" bool regex
  | Grp nat regex
  | Ahead regex
  | Bol
  | Eol
  | Wb
  | Empty

record flags =
  ignorecase :: bool
  dotall :: bool

text \<open>
  A matcher state is the current position with the capture groups closed so far (number,
  start, end), most recent first.
\<close>

type_synonym caps = "(nat \<times> nat \<times> nat) list"
type_synonym mstate = "nat \<times> caps"

fun item_ok :: "flags \<Rightarrow> item \<Rightarrow> int \<Rightarrow> bool" where
  "item_ok fl (Lit a) c = (if ignorecase fl then lower c = lower a else c = a)"
| "item_ok fl (Cls neg as) c =
     ((if ignorecase fl
       then list_ex (\<lambda>a. atom_has a c \<or> atom_has a (lower c) \<or> atom_has a (upper c)) as
       else list_ex (\<lambda>a. atom_has a c) as) \<noteq> neg)"
| "item_ok fl Dot c = (dotall fl \<or> c \<noteq> 10)"

definition word_at :: "ustr \<Rightarrow> nat \<Rightarrow> bool" where
  "word_at s i = (i < length s \<and> is_word (s ! i))"

definition at_boundary :: "ustr \<Rightarrow> nat \<Rightarrow> bool" where
  "at_boundary s i = ((0 < i \<and> word_at s (i - 1)) \<noteq> word_at s i)"

definition at_end :: "ustr \<Rightarrow> nat \<Rightarrow> bool" where
  "at_end s i = (i = length s \<or> (Suc i = length s \<and> s ! i = 10))"

section \<open>The matcher\<close>

text \<open>
  \<open>ms r fl s st\<close> lists every way in which \<open>r\<close> matches \<open>s\<close> from the state \<open>st\<close>, in the
  order in which a backtracking matcher tries them: the alternatives of \<open>|\<close> from left to
  right, a greedy repetition with more iterations first, a lazy one with fewer first. The
  head of the list is the match that \<open>re\<close> reports. An iteration of a repetition has to
  consume at least one character, which is how \<open>re\<close> treats the repetitions of the patterns
  used here, none of which has a body that matches the empty string; the number of
  iterations is therefore bounded by the number of characters left.
\<close>

primrec rep :: "nat \<Rightarrow> (mstate \<Rightarrow> mstate list) \<Rightarrow> nat \<Rightarrow> nat option \<Rightarrow> bool \<Rightarrow> mstate \<Rightarrow> mstate list" where
  "rep 0 f lo hi greedy st = (if lo = 0 then [st] else [])"
| "rep (Suc n) f lo hi greedy st =
     (let more = (if hi = Some 0 then []
                  else concat (map (rep n f (lo - 1) (map_option (\<lambda>h. h - 1) hi) greedy)
                                   (filter (\<lambda>st'. fst st < fst st') (f st))));
          stop = (if lo = 0 then [st] else [])
      in if greedy then more @ stop else stop @ more)"

primrec ms :: "regex \<Rightarrow> flags \<Rightarrow> ustr \<Rightarrow> mstate \<Rightarrow> mstate list" where
  "ms (One x) fl s st =
     (if fst st < length s \<and> item_ok fl x (s ! fst st) then [(Suc (fst st), snd st)] else [])"
| "ms (Seq a b) fl s st = concat (map (ms b fl s) (ms a fl s st))"
| "ms (Alt a b) fl s st = ms a fl s st @ ms b fl s st"
| "ms (Rep lo hi greedy r) fl s st = rep (length s - fst st) (ms r fl s) lo hi greedy st"
| "ms (Grp n r) fl s st = map (\<lambda>st'. (fst st', (n, fst st, fst st') # snd st')) (ms r fl s st)"
| "ms (Ahead r) fl s st = (case ms r fl s st of [] \<Rightarrow> [] | st' # _ \<Rightarrow> [(fst st, snd st')])"
| "ms Bol fl s st = (if fst st = 0 then [st] else [])"
| "ms Eol fl s st = (if at_end s (fst st) then [st] else [])"
| "ms Wb fl s st = (if at_boundary s (fst st) then [st] else [])"
| "ms Empty fl s st = [st]"

section \<open>The language of a pattern\<close>

text \<open>
  \<open>slice s i j\<close> is \<open>s[i:j]\<close>. \<open>lang fl r\<close> is the set of strings that \<open>r\<close> can consume, with
  no regard to context: assertions consume nothing.
\<close>

definition slice :: "'a list \<Rightarrow> nat \<Rightarrow> nat \<Rightarrow> 'a list" where
  "slice s i j = take (j - i) (drop i s)"

fun lang :: "flags \<Rightarrow> regex \<Rightarrow> ustr set" where
  "lang fl (One x) = {[c] | c. item_ok fl x c}"
| "lang fl (Seq a b) = {v @ w | v w. v \<in> lang fl a \<and> w \<in> lang fl b}"
| "lang fl (Alt a b) = lang fl a \<union> lang fl b"
| "lang fl (Rep lo hi g r) =
     {concat ws | ws. lo \<le> length ws \<and> (\<forall>h. hi = Some h \<longrightarrow> length ws \<le> h) \<and>
        (\<forall>w \<in> set ws. w \<in> lang fl r \<and> w \<noteq> [])}"
| "lang fl (Grp n r) = lang fl r"
| "lang fl (Ahead r) = {[]}"
| "lang fl Bol = {[]}"
| "lang fl Eol = {[]}"
| "lang fl Wb = {[]}"
| "lang fl Empty = {[]}"

lemma slice_append: "i \<le> k \<Longrightarrow> k \<le> j \<Longrightarrow> slice s i k @ slice s k j = slice s i j"
proof -
  assume a: "i \<le> k" "k \<le> j"
  have "take (j - i) (drop i s) = take ((k - i) + (j - k)) (drop i s)" using a by simp
  also have "\<dots> = take (k - i) (drop i s) @ take (j - k) (drop (k - i) (drop i s))"
    by (rule take_add)
  also have "drop (k - i) (drop i s) = drop k s" using a by simp
  finally show ?thesis by (simp add: slice_def)
qed

lemma slice_same [simp]: "slice s i i = []"
  by (simp add: slice_def)

lemma slice_Suc: "i < length s \<Longrightarrow> slice s i (Suc i) = [s ! i]"
  by (simp add: slice_def take_Suc_conv_app_nth Cons_nth_drop_Suc [symmetric])

lemma length_slice: "j \<le> length s \<Longrightarrow> length (slice s i j) = j - i"
  by (simp add: slice_def)

section \<open>Soundness of the matcher\<close>

text \<open>
  Every state that the matcher reaches lies at or after the state it started from and
  within the string, and the characters in between are a word of the language.
\<close>

definition sound_at :: "ustr \<Rightarrow> ustr set \<Rightarrow> (mstate \<Rightarrow> mstate list) \<Rightarrow> bool" where
  "sound_at s L f = (\<forall>i c j c'. i \<le> length s \<longrightarrow> (j, c') \<in> set (f (i, c)) \<longrightarrow>
      i \<le> j \<and> j \<le> length s \<and> slice s i j \<in> L)"

lemma rep_sound:
  assumes f: "sound_at s L f"
  shows "i \<le> length s \<Longrightarrow> (j, c') \<in> set (rep n f lo hi g (i, c)) \<Longrightarrow>
     i \<le> j \<and> j \<le> length s \<and>
     (\<exists>ws. slice s i j = concat ws \<and> lo \<le> length ws \<and> (\<forall>h. hi = Some h \<longrightarrow> length ws \<le> h) \<and>
        (\<forall>w \<in> set ws. w \<in> L \<and> w \<noteq> []))"
proof (induction n arbitrary: i c lo hi)
  case 0
  then have "lo = 0" "j = i" by (auto split: if_splits)
  with 0 show ?case by (auto intro: exI [of _ "[]"])
next
  case (Suc n)
  from Suc.prems(2) consider
      (stop) "lo = 0" "j = i"
    | (more) k c1 where "hi \<noteq> Some 0" "(k, c1) \<in> set (f (i, c))" "i < k"
        "(j, c') \<in> set (rep n f (lo - 1) (map_option (\<lambda>h. h - 1) hi) g (k, c1))"
    by (auto simp: Let_def split: if_splits)
  then show ?case
  proof cases
    case stop
    with Suc.prems show ?thesis by (auto intro: exI [of _ "[]"])
  next
    case more
    from f more(2) Suc.prems(1) have fk: "i \<le> k" "k \<le> length s" "slice s i k \<in> L"
      unfolding sound_at_def by blast+
    from Suc.IH [OF fk(2) more(4)] obtain ws where ws:
      "k \<le> j" "j \<le> length s" "slice s k j = concat ws"
      "lo - 1 \<le> length ws" "\<forall>h. map_option (\<lambda>h. h - 1) hi = Some h \<longrightarrow> length ws \<le> h"
      "\<forall>w \<in> set ws. w \<in> L \<and> w \<noteq> []"
      by blast
    have ne: "slice s i k \<noteq> []"
      using length_slice [OF fk(2), of i] more(3) by auto
    have "slice s i j = concat (slice s i k # ws)"
      using slice_append [of i k j s] fk(1) ws(1) ws(3) by simp
    moreover have "lo \<le> length (slice s i k # ws)" using ws(4) by simp
    moreover have "\<forall>h. hi = Some h \<longrightarrow> length (slice s i k # ws) \<le> h"
      using ws(5) more(1) by (cases hi) auto
    moreover have "\<forall>w \<in> set (slice s i k # ws). w \<in> L \<and> w \<noteq> []"
      using ws(6) fk(3) ne by simp
    ultimately have "\<exists>ws. slice s i j = concat ws \<and> lo \<le> length ws \<and>
        (\<forall>h. hi = Some h \<longrightarrow> length ws \<le> h) \<and> (\<forall>w \<in> set ws. w \<in> L \<and> w \<noteq> [])"
      by blast
    moreover have "i \<le> j" using fk(1) ws(1) by simp
    ultimately show ?thesis using ws(2) by simp
  qed
qed

lemma sound_atI:
  assumes "\<And>i c j c'. i \<le> length s \<Longrightarrow> (j, c') \<in> set (f (i, c)) \<Longrightarrow>
      i \<le> j \<and> j \<le> length s \<and> slice s i j \<in> L"
  shows "sound_at s L f"
  using assms unfolding sound_at_def by blast

lemma sound_atD:
  assumes "sound_at s L f" "i \<le> length s" "(j, c') \<in> set (f (i, c))"
  shows "i \<le> j" "j \<le> length s" "slice s i j \<in> L"
  using assms unfolding sound_at_def by blast+

lemma ms_sound: "sound_at s (lang fl r) (ms r fl s)"
proof (induction r)
  case (One x)
  show ?case
  proof (rule sound_atI)
    fix i c j c'
    assume "i \<le> length s" and m: "(j, c') \<in> set (ms (One x) fl s (i, c))"
    from m have "i < length s" "item_ok fl x (s ! i)" "j = Suc i"
      by (simp_all split: if_splits)
    then show "i \<le> j \<and> j \<le> length s \<and> slice s i j \<in> lang fl (One x)"
      by (simp add: slice_Suc)
  qed
next
  case (Seq a b)
  show ?case
  proof (rule sound_atI)
    fix i c j c'
    assume i: "i \<le> length s" and m: "(j, c') \<in> set (ms (Seq a b) fl s (i, c))"
    from m obtain k c1 where k: "(k, c1) \<in> set (ms a fl s (i, c))" "(j, c') \<in> set (ms b fl s (k, c1))"
      by auto
    note a = sound_atD [OF Seq.IH(1) i k(1)]
    note b = sound_atD [OF Seq.IH(2) a(2) k(2)]
    have "slice s i j = slice s i k @ slice s k j" using slice_append a(1) b(1) by metis
    with a b show "i \<le> j \<and> j \<le> length s \<and> slice s i j \<in> lang fl (Seq a b)" by auto
  qed
next
  case (Alt a b)
  show ?case
  proof (rule sound_atI)
    fix i c j c'
    assume i: "i \<le> length s" and m: "(j, c') \<in> set (ms (Alt a b) fl s (i, c))"
    from m have "(j, c') \<in> set (ms a fl s (i, c)) \<or> (j, c') \<in> set (ms b fl s (i, c))" by simp
    then show "i \<le> j \<and> j \<le> length s \<and> slice s i j \<in> lang fl (Alt a b)"
      using sound_atD [OF Alt.IH(1) i] sound_atD [OF Alt.IH(2) i] by auto
  qed
next
  case (Rep lo hi g r)
  show ?case
  proof (rule sound_atI)
    fix i c j c'
    assume i: "i \<le> length s" and m: "(j, c') \<in> set (ms (Rep lo hi g r) fl s (i, c))"
    from m have "(j, c') \<in> set (rep (length s - i) (ms r fl s) lo hi g (i, c))" by simp
    from rep_sound [OF Rep.IH i this]
    show "i \<le> j \<and> j \<le> length s \<and> slice s i j \<in> lang fl (Rep lo hi g r)" by auto
  qed
next
  case (Grp n r)
  show ?case
  proof (rule sound_atI)
    fix i c j c'
    assume i: "i \<le> length s" and m: "(j, c') \<in> set (ms (Grp n r) fl s (i, c))"
    from m obtain c1 where "(j, c1) \<in> set (ms r fl s (i, c))" by auto
    from sound_atD [OF Grp.IH i this]
    show "i \<le> j \<and> j \<le> length s \<and> slice s i j \<in> lang fl (Grp n r)" by simp
  qed
next
  case (Ahead r)
  show ?case
  proof (rule sound_atI)
    fix i c j c'
    assume i: "i \<le> length s" and m: "(j, c') \<in> set (ms (Ahead r) fl s (i, c))"
    from m have "j = i" by (simp split: list.splits)
    with i show "i \<le> j \<and> j \<le> length s \<and> slice s i j \<in> lang fl (Ahead r)" by simp
  qed
next
  case Bol
  show ?case by (rule sound_atI) (simp split: if_splits)
next
  case Eol
  show ?case by (rule sound_atI) (simp split: if_splits)
next
  case Wb
  show ?case by (rule sound_atI) (simp split: if_splits)
next
  case Empty
  show ?case by (rule sound_atI) simp
qed

section \<open>Completeness of the matcher\<close>

text \<open>
  For a pattern without assertions, every prefix of the rest of the string that is in the
  language is the span of one of the listed states.
\<close>

fun plain :: "regex \<Rightarrow> bool" where
  "plain (One x) = True"
| "plain (Seq a b) = (plain a \<and> plain b)"
| "plain (Alt a b) = (plain a \<and> plain b)"
| "plain (Rep lo hi g r) = plain r"
| "plain (Grp n r) = plain r"
| "plain Empty = True"
| "plain r = False"

definition complete_at :: "ustr \<Rightarrow> ustr set \<Rightarrow> (mstate \<Rightarrow> mstate list) \<Rightarrow> bool" where
  "complete_at s L f = (\<forall>i c w. i + length w \<le> length s \<longrightarrow> slice s i (i + length w) = w \<longrightarrow>
      w \<in> L \<longrightarrow> (\<exists>c'. (i + length w, c') \<in> set (f (i, c))))"

lemma complete_atD:
  assumes "complete_at s L f" "i + length w \<le> length s" "slice s i (i + length w) = w" "w \<in> L"
  shows "\<exists>c'. (i + length w, c') \<in> set (f (i, c))"
  using assms unfolding complete_at_def by blast

lemma slice_split:
  assumes "slice s i (i + length (x @ y)) = x @ y" "i + length (x @ y) \<le> length s"
  shows "slice s i (i + length x) = x" "slice s (i + length x) (i + length x + length y) = y"
proof -
  have "slice s i (i + length x) @ slice s (i + length x) (i + length x + length y) = x @ y"
    using slice_append [of i "i + length x" "i + length x + length y" s] assms(1)
    by (simp add: add.assoc)
  moreover have "length (slice s i (i + length x)) = length x"
    using assms(2) by (simp add: length_slice)
  ultimately show "slice s i (i + length x) = x"
    "slice s (i + length x) (i + length x + length y) = y"
    by simp_all
qed

lemma rep_more_mem:
  "hi \<noteq> Some 0 \<Longrightarrow> st1 \<in> set (f st) \<Longrightarrow> fst st < fst st1 \<Longrightarrow>
   x \<in> set (rep n f (lo - 1) (map_option (\<lambda>h. h - 1) hi) g st1) \<Longrightarrow>
   x \<in> set (rep (Suc n) f lo hi g st)"
proof -
  assume a: "hi \<noteq> Some 0" "st1 \<in> set (f st)" "fst st < fst st1"
    "x \<in> set (rep n f (lo - 1) (map_option (\<lambda>h. h - 1) hi) g st1)"
  have "st1 \<in> set (filter (\<lambda>st'. fst st < fst st') (f st))" using a(2,3) by simp
  then have "x \<in> set (concat (map (rep n f (lo - 1) (map_option (\<lambda>h. h - 1) hi) g)
      (filter (\<lambda>st'. fst st < fst st') (f st))))"
    using a(4) unfolding set_concat set_map by blast
  then show ?thesis using a(1) by (cases g) (simp_all add: Let_def del: set_concat set_filter)
qed

lemma rep_complete:
  assumes f: "complete_at s L f"
  shows "\<forall>w \<in> set ws. w \<in> L \<and> w \<noteq> [] \<Longrightarrow> lo \<le> length ws \<Longrightarrow>
     (\<forall>h. hi = Some h \<longrightarrow> length ws \<le> h) \<Longrightarrow> length ws \<le> n \<Longrightarrow>
     i + length (concat ws) \<le> length s \<Longrightarrow> slice s i (i + length (concat ws)) = concat ws \<Longrightarrow>
     \<exists>c'. (i + length (concat ws), c') \<in> set (rep n f lo hi g (i, c))"
proof (induction ws arbitrary: n i c lo hi)
  case Nil
  then show ?case by (cases n) (auto simp: Let_def)
next
  case (Cons w ws)
  from Cons.prems(4) obtain m where n: "n = Suc m" "length ws \<le> m" by (cases n) auto
  from Cons.prems(1) have w: "w \<in> L" "w \<noteq> []" by auto
  from Cons.prems(3) have hi: "hi \<noteq> Some 0" by auto
  have len: "i + length (w @ concat ws) \<le> length s" using Cons.prems(5) by simp
  have sl: "slice s i (i + length (w @ concat ws)) = w @ concat ws" using Cons.prems(6) by simp
  note sp = slice_split [OF sl len]
  have "i + length w \<le> length s" using len by simp
  from complete_atD [OF f this sp(1) w(1)] obtain c1 where
    c1: "(i + length w, c1) \<in> set (f (i, c))" by blast
  have "\<exists>c'. (i + length w + length (concat ws), c') \<in>
      set (rep m f (lo - 1) (map_option (\<lambda>h. h - 1) hi) g (i + length w, c1))"
  proof (rule Cons.IH)
    show "\<forall>w \<in> set ws. w \<in> L \<and> w \<noteq> []" using Cons.prems(1) by simp
    show "lo - 1 \<le> length ws" using Cons.prems(2) by simp
    show "\<forall>h. map_option (\<lambda>h. h - 1) hi = Some h \<longrightarrow> length ws \<le> h"
      using Cons.prems(3) by (cases hi) auto
    show "length ws \<le> m" by (rule n(2))
    show "i + length w + length (concat ws) \<le> length s" using len by simp
    show "slice s (i + length w) (i + length w + length (concat ws)) = concat ws" by (rule sp(2))
  qed
  then obtain c' where c': "(i + length w + length (concat ws), c') \<in>
      set (rep m f (lo - 1) (map_option (\<lambda>h. h - 1) hi) g (i + length w, c1))" by blast
  have pos: "i < i + length w" using w(2) by simp
  have "(i + length w + length (concat ws), c') \<in> set (rep (Suc m) f lo hi g (i, c))"
    using rep_more_mem [OF hi c1 _ c'] pos by simp
  then show ?case unfolding n(1) by (auto simp: add.assoc)
qed

lemma length_concat_ge:
  "\<forall>w \<in> set ws. w \<noteq> [] \<Longrightarrow> length ws \<le> length (concat ws)"
proof (induction ws)
  case Nil
  then show ?case by simp
next
  case (Cons w ws)
  then have "1 \<le> length w" by (cases w) auto
  with Cons show ?case by simp
qed

lemma ms_complete: "plain r \<Longrightarrow> complete_at s (lang fl r) (ms r fl s)"
proof (induction r)
  case (One x)
  show ?case unfolding complete_at_def
  proof (intro allI impI)
    fix i c w
    assume a: "i + length w \<le> length s" "slice s i (i + length w) = w" "w \<in> lang fl (One x)"
    from a(3) obtain ch where w: "w = [ch]" "item_ok fl x ch" by auto
    with a(1) have i: "i < length s" by simp
    from a(2) w(1) slice_Suc [OF i] have "s ! i = ch" by simp
    with i w show "\<exists>c'. (i + length w, c') \<in> set (ms (One x) fl s (i, c))" by simp
  qed
next
  case (Seq a b)
  then have A: "complete_at s (lang fl a) (ms a fl s)" and B: "complete_at s (lang fl b) (ms b fl s)"
    by simp_all
  show ?case unfolding complete_at_def
  proof (intro allI impI)
    fix i c w
    assume h: "i + length w \<le> length s" "slice s i (i + length w) = w" "w \<in> lang fl (Seq a b)"
    from h(3) obtain x y where xy: "w = x @ y" "x \<in> lang fl a" "y \<in> lang fl b" by auto
    note sp = slice_split [OF h(2) [unfolded xy(1)] h(1) [unfolded xy(1)]]
    have "i + length x \<le> length s" using h(1) xy(1) by simp
    from complete_atD [OF A this sp(1) xy(2)] obtain c1 where
      c1: "(i + length x, c1) \<in> set (ms a fl s (i, c))" by blast
    have "i + length x + length y \<le> length s" using h(1) xy(1) by simp
    from complete_atD [OF B this sp(2) xy(3)] obtain c2 where
      c2: "(i + length x + length y, c2) \<in> set (ms b fl s (i + length x, c1))" by blast
    have "(i + length w, c2) \<in> set (ms (Seq a b) fl s (i, c))"
      using c1 c2 xy(1) by (auto simp: add.assoc intro!: bexI [of _ "(i + length x, c1)"])
    then show "\<exists>c'. (i + length w, c') \<in> set (ms (Seq a b) fl s (i, c))" by blast
  qed
next
  case (Alt a b)
  then have A: "complete_at s (lang fl a) (ms a fl s)" and B: "complete_at s (lang fl b) (ms b fl s)"
    by simp_all
  show ?case unfolding complete_at_def
  proof (intro allI impI)
    fix i c w
    assume h: "i + length w \<le> length s" "slice s i (i + length w) = w" "w \<in> lang fl (Alt a b)"
    from h(3) have "w \<in> lang fl a \<or> w \<in> lang fl b" by simp
    then show "\<exists>c'. (i + length w, c') \<in> set (ms (Alt a b) fl s (i, c))"
      using complete_atD [OF A h(1) h(2), of c] complete_atD [OF B h(1) h(2), of c] by auto
  qed
next
  case (Rep lo hi g r)
  then have R: "complete_at s (lang fl r) (ms r fl s)" by simp
  show ?case unfolding complete_at_def
  proof (intro allI impI)
    fix i c w
    assume h: "i + length w \<le> length s" "slice s i (i + length w) = w" "w \<in> lang fl (Rep lo hi g r)"
    from h(3) obtain ws where ws: "w = concat ws" "lo \<le> length ws"
      "\<forall>h. hi = Some h \<longrightarrow> length ws \<le> h" "\<forall>w \<in> set ws. w \<in> lang fl r \<and> w \<noteq> []" by auto
    have "length ws \<le> length (concat ws)" using ws(4) by (intro length_concat_ge) simp
    then have fuel: "length ws \<le> length s - i" using h(1) ws(1) by simp
    from rep_complete [OF R ws(4) ws(2) ws(3) fuel h(1) [unfolded ws(1)] h(2) [unfolded ws(1)]]
    show "\<exists>c'. (i + length w, c') \<in> set (ms (Rep lo hi g r) fl s (i, c))"
      unfolding ws(1) by simp
  qed
next
  case (Grp n r)
  then have R: "complete_at s (lang fl r) (ms r fl s)" by simp
  show ?case unfolding complete_at_def
  proof (intro allI impI)
    fix i c w
    assume h: "i + length w \<le> length s" "slice s i (i + length w) = w" "w \<in> lang fl (Grp n r)"
    from h(3) have "w \<in> lang fl r" by simp
    from complete_atD [OF R h(1) h(2) this, of c] obtain c1 where
      "(i + length w, c1) \<in> set (ms r fl s (i, c))" by blast
    then have "(i + length w, (n, i, i + length w) # c1) \<in> set (ms (Grp n r) fl s (i, c))"
      by (auto intro!: image_eqI [of _ _ "(i + length w, c1)"])
    then show "\<exists>c'. (i + length w, c') \<in> set (ms (Grp n r) fl s (i, c))" by blast
  qed
next
  case Empty
  show ?case unfolding complete_at_def by simp
qed simp_all

section \<open>Searching (re.search, re.finditer, re.sub)\<close>

text \<open>
  A match is its start, its end and its capture groups. \<open>re.search\<close> tries the start
  positions from left to right and reports the first match of the first position that has
  one. \<open>adv\<close> asks for a non-empty match at the first position tried, as \<open>re.finditer\<close>
  does directly after an empty match.
\<close>

type_synonym match = "nat \<times> nat \<times> caps"

definition attempt :: "regex \<Rightarrow> flags \<Rightarrow> ustr \<Rightarrow> nat \<Rightarrow> bool \<Rightarrow> mstate option" where
  "attempt r fl s i adv =
     (case filter (\<lambda>st. adv \<longrightarrow> i < fst st) (ms r fl s (i, [])) of
        [] \<Rightarrow> None
      | st # _ \<Rightarrow> Some st)"

primrec scan :: "nat \<Rightarrow> regex \<Rightarrow> flags \<Rightarrow> ustr \<Rightarrow> nat \<Rightarrow> bool \<Rightarrow> match option" where
  "scan 0 r fl s i adv = None"
| "scan (Suc n) r fl s i adv =
     (case attempt r fl s i adv of
        Some st \<Rightarrow> Some (i, fst st, snd st)
      | None \<Rightarrow> scan n r fl s (Suc i) False)"

definition search_from :: "regex \<Rightarrow> flags \<Rightarrow> ustr \<Rightarrow> nat \<Rightarrow> bool \<Rightarrow> match option" where
  "search_from r fl s pos adv = scan (Suc (length s) - pos) r fl s pos adv"

definition re_search :: "regex \<Rightarrow> flags \<Rightarrow> ustr \<Rightarrow> match option" where
  "re_search r fl s = search_from r fl s 0 False"

definition group0 :: "ustr \<Rightarrow> match \<Rightarrow> ustr" where
  "group0 s m = slice s (fst m) (fst (snd m))"

definition group :: "ustr \<Rightarrow> match \<Rightarrow> nat \<Rightarrow> ustr option" where
  "group s m n = map_option (\<lambda>(a, b). slice s a b) (map_of (snd (snd m)) n)"

lemma attempt_Some:
  "attempt r fl s i adv = Some st \<Longrightarrow> st \<in> set (ms r fl s (i, [])) \<and> (adv \<longrightarrow> i < fst st)"
proof -
  assume a: "attempt r fl s i adv = Some st"
  then obtain rest where "filter (\<lambda>st. adv \<longrightarrow> i < fst st) (ms r fl s (i, [])) = st # rest"
    by (auto simp: attempt_def split: list.splits)
  then have "st \<in> set (filter (\<lambda>st. adv \<longrightarrow> i < fst st) (ms r fl s (i, [])))" by simp
  then show ?thesis by simp
qed

lemma attempt_None:
  "attempt r fl s i False = None \<longleftrightarrow> ms r fl s (i, []) = []"
  by (simp add: attempt_def split: list.splits)

lemma attempt_hd:
  "attempt r fl s i False = Some st \<longleftrightarrow> (\<exists>rest. ms r fl s (i, []) = st # rest)"
  by (auto simp: attempt_def split: list.splits)

lemma scan_Some:
  "scan n r fl s i adv = Some (a, b, c) \<Longrightarrow> i + n \<le> Suc (length s) \<Longrightarrow>
   i \<le> a \<and> a \<le> b \<and> b \<le> length s \<and> (b, c) \<in> set (ms r fl s (a, [])) \<and> (adv \<and> a = i \<longrightarrow> i < b)"
proof (induction n arbitrary: i adv)
  case 0
  then show ?case by simp
next
  case (Suc n)
  show ?case
  proof (cases "attempt r fl s i adv")
    case None
    with Suc.prems have "scan n r fl s (Suc i) False = Some (a, b, c)" by simp
    from Suc.IH [OF this] Suc.prems(2) show ?thesis by auto
  next
    case (Some st)
    with Suc.prems have eq: "a = i" "b = fst st" "c = snd st" by simp_all
    from attempt_Some [OF Some] have m: "(b, c) \<in> set (ms r fl s (i, []))" "adv \<longrightarrow> i < b"
      using eq by simp_all
    have "i \<le> length s" using Suc.prems(2) by simp
    from sound_atD [OF ms_sound this m(1)] m eq show ?thesis by simp
  qed
qed

lemma search_from_Some:
  assumes "search_from r fl s pos adv = Some (a, b, c)"
  shows "pos \<le> a" "a \<le> b" "b \<le> length s" "(b, c) \<in> set (ms r fl s (a, []))"
    "adv \<Longrightarrow> a = pos \<Longrightarrow> pos < b"
proof -
  have n: "pos + (Suc (length s) - pos) \<le> Suc (length s)"
  proof (cases "pos \<le> Suc (length s)")
    case True
    then show ?thesis by simp
  next
    case False
    then have "Suc (length s) - pos = 0" by simp
    with assms show ?thesis by (simp add: search_from_def)
  qed
  note r = scan_Some [OF assms [unfolded search_from_def] n]
  from r show "pos \<le> a" "a \<le> b" "b \<le> length s" "(b, c) \<in> set (ms r fl s (a, []))" by simp_all
  from r show "adv \<Longrightarrow> a = pos \<Longrightarrow> pos < b" by simp
qed

lemma scan_leftmost:
  "scan n r fl s i False = Some (a, b, c) \<Longrightarrow>
   (\<exists>rest. ms r fl s (a, []) = (b, c) # rest) \<and> (\<forall>k. i \<le> k \<longrightarrow> k < a \<longrightarrow> ms r fl s (k, []) = [])"
proof (induction n arbitrary: i)
  case 0
  then show ?case by simp
next
  case (Suc n)
  show ?case
  proof (cases "attempt r fl s i False")
    case None
    with Suc.prems have "scan n r fl s (Suc i) False = Some (a, b, c)" by simp
    from Suc.IH [OF this] have ih: "\<exists>rest. ms r fl s (a, []) = (b, c) # rest"
      "\<And>k. Suc i \<le> k \<Longrightarrow> k < a \<Longrightarrow> ms r fl s (k, []) = []" by simp_all
    have e: "ms r fl s (i, []) = []" using None by (simp add: attempt_None)
    have "ms r fl s (k, []) = []" if "i \<le> k" "k < a" for k
    proof (cases "k = i")
      case True
      then show ?thesis using e by simp
    next
      case False
      with that have "Suc i \<le> k" by simp
      from ih(2) [OF this that(2)] show ?thesis .
    qed
    with ih(1) show ?thesis by blast
  next
    case (Some st)
    with Suc.prems have eq: "a = i" "st = (b, c)" by auto
    have "\<exists>rest. ms r fl s (a, []) = (b, c) # rest" using Some eq by (simp add: attempt_hd)
    moreover have "\<forall>k. i \<le> k \<longrightarrow> k < a \<longrightarrow> ms r fl s (k, []) = []" using eq(1) by auto
    ultimately show ?thesis by blast
  qed
qed

lemma scan_None:
  "scan n r fl s i False = None \<longleftrightarrow> (\<forall>k. i \<le> k \<longrightarrow> k < i + n \<longrightarrow> ms r fl s (k, []) = [])"
proof (induction n arbitrary: i)
  case 0
  then show ?case by auto
next
  case (Suc n)
  show ?case
  proof (cases "attempt r fl s i False")
    case None
    then have e: "ms r fl s (i, []) = []" by (simp add: attempt_None)
    have "scan (Suc n) r fl s i False = None \<longleftrightarrow> scan n r fl s (Suc i) False = None"
      using None by simp
    also have "\<dots> \<longleftrightarrow> (\<forall>k. Suc i \<le> k \<longrightarrow> k < Suc i + n \<longrightarrow> ms r fl s (k, []) = [])"
      by (rule Suc.IH)
    also have "\<dots> \<longleftrightarrow> (\<forall>k. i \<le> k \<longrightarrow> k < i + Suc n \<longrightarrow> ms r fl s (k, []) = [])"
    proof
      assume h: "\<forall>k. Suc i \<le> k \<longrightarrow> k < Suc i + n \<longrightarrow> ms r fl s (k, []) = []"
      show "\<forall>k. i \<le> k \<longrightarrow> k < i + Suc n \<longrightarrow> ms r fl s (k, []) = []"
      proof (intro allI impI)
        fix k assume k: "i \<le> k" "k < i + Suc n"
        show "ms r fl s (k, []) = []"
        proof (cases "k = i")
          case True
          then show ?thesis using e by simp
        next
          case False
          with k have "Suc i \<le> k" "k < Suc i + n" by simp_all
          with h show ?thesis by blast
        qed
      qed
    next
      assume h: "\<forall>k. i \<le> k \<longrightarrow> k < i + Suc n \<longrightarrow> ms r fl s (k, []) = []"
      show "\<forall>k. Suc i \<le> k \<longrightarrow> k < Suc i + n \<longrightarrow> ms r fl s (k, []) = []"
      proof (intro allI impI)
        fix k assume "Suc i \<le> k" "k < Suc i + n"
        then have "i \<le> k" "k < i + Suc n" by simp_all
        with h show "ms r fl s (k, []) = []" by blast
      qed
    qed
    finally show ?thesis .
  next
    case (Some st)
    then have "ms r fl s (i, []) \<noteq> []" by (auto simp: attempt_hd)
    moreover have "scan (Suc n) r fl s i False \<noteq> None" using Some by simp
    moreover have "i \<le> i" "i < i + Suc n" by simp_all
    ultimately show ?thesis by blast
  qed
qed

lemma re_search_None:
  "re_search r fl s = None \<longleftrightarrow> (\<forall>k \<le> length s. ms r fl s (k, []) = [])"
proof -
  have "re_search r fl s = None \<longleftrightarrow>
      (\<forall>k. 0 \<le> k \<longrightarrow> k < 0 + Suc (length s) \<longrightarrow> ms r fl s (k, []) = [])"
    unfolding re_search_def search_from_def by (simp only: scan_None diff_zero)
  then show ?thesis by (simp add: less_Suc_eq_le)
qed

lemma re_search_Some:
  assumes "re_search r fl s = Some (a, b, c)"
  shows "a \<le> b" "b \<le> length s" "\<exists>rest. ms r fl s (a, []) = (b, c) # rest"
    "\<forall>k < a. ms r fl s (k, []) = []"
proof -
  from assms have s: "scan (Suc (length s)) r fl s 0 False = Some (a, b, c)"
    by (simp add: re_search_def search_from_def)
  from scan_leftmost [OF s] show "\<exists>rest. ms r fl s (a, []) = (b, c) # rest"
    "\<forall>k < a. ms r fl s (k, []) = []" by simp_all
  from search_from_Some [OF assms [unfolded re_search_def]] show "a \<le> b" "b \<le> length s" by simp_all
qed

text \<open>
  \<open>re.finditer\<close>: the next search starts where the last match ended; after an empty match
  an empty match at the same position is not reported again.
\<close>

function finditer_from :: "regex \<Rightarrow> flags \<Rightarrow> ustr \<Rightarrow> nat \<Rightarrow> bool \<Rightarrow> match list" where
  "finditer_from r fl s pos adv =
     (case search_from r fl s pos adv of
        None \<Rightarrow> []
      | Some m \<Rightarrow> m # finditer_from r fl s (fst (snd m)) (fst m = fst (snd m)))"
  by pat_completeness auto
termination
proof (relation "measure (\<lambda>(r, fl, s, pos, adv). 2 * (Suc (length s) - pos) + (if adv then 0 else 1))",
    goal_cases)
  case 1
  show ?case by simp
next
  case (2 r fl s pos adv m)
  obtain a b c where m: "m = (a, b, c)" by (cases m)
  note h = search_from_Some [OF 2 [unfolded m]]
  show ?case
  proof (cases "pos < b")
    case True
    with h(3) show ?thesis unfolding m by auto
  next
    case False
    with h(1,2) have e: "a = pos" "b = pos" by simp_all
    with h(5) have "\<not> adv" by auto
    with e show ?thesis unfolding m by simp
  qed
qed

declare finditer_from.simps [simp del]

definition re_finditer :: "regex \<Rightarrow> flags \<Rightarrow> ustr \<Rightarrow> match list" where
  "re_finditer r fl s = finditer_from r fl s 0 False"

text \<open>\<open>re.sub\<close> with a replacement string that has no group references.\<close>

fun rebuild :: "ustr \<Rightarrow> ustr \<Rightarrow> nat \<Rightarrow> match list \<Rightarrow> ustr" where
  "rebuild s repl pos [] = drop pos s"
| "rebuild s repl pos (m # rest) = slice s pos (fst m) @ repl @ rebuild s repl (fst (snd m)) rest"

definition re_sub :: "regex \<Rightarrow> flags \<Rightarrow> ustr \<Rightarrow> ustr \<Rightarrow> ustr" where
  "re_sub r fl repl s = rebuild s repl 0 (re_finditer r fl s)"

definition noflags :: flags where
  "noflags = \<lparr>ignorecase = False, dotall = False\<rparr>"

definition icase :: flags where
  "icase = \<lparr>ignorecase = True, dotall = False\<rparr>"

text \<open>\<open>re.escape(t)\<close> as a pattern: the characters of \<open>t\<close>, each standing for itself.\<close>

definition lits :: "ustr \<Rightarrow> regex" where
  "lits t = foldr (\<lambda>a r. Seq (One (Lit a)) r) t Empty"

section \<open>Title matching (main.py, check\_and\_collect\_skills, check\_and\_collect\_designation\_ids)\<close>

text \<open>
  Both functions search the text for \<open>\b\<close>, the escaped title, \<open>\b\<close> under
  \<open>re.IGNORECASE\<close>. \<open>item[key]\<close> raises \<open>KeyError\<close> on an object without the key and
  \<open>TypeError\<close> on a value that cannot be indexed by a string; \<open>re.escape\<close> raises \<open>TypeError\<close>
  on a title that is not a string.
\<close>

definition word_pattern :: "ustr \<Rightarrow> regex" where
  "word_pattern t = Seq Wb (Seq (lits t) Wb)"

fun getitem :: "json \<Rightarrow> ustr \<Rightarrow> error + json" where
  "getitem (JObj kvs) k = (case map_of kvs k of None \<Rightarrow> Inl KeyError | Some v \<Rightarrow> Inr v)"
| "getitem v k = Inl TypeError"

definition title_found :: "json \<Rightarrow> ustr \<Rightarrow> error + bool" where
  "title_found v text_content =
     (case v of
        JStr t \<Rightarrow> Inr (re_search (word_pattern t) icase text_content \<noteq> None)
      | _ \<Rightarrow> Inl TypeError)"

fun str_of :: "json \<Rightarrow> ustr" where
  "str_of (JStr t) = t"
| "str_of v = []"

fun collect_titles :: "ustr \<Rightarrow> ustr \<Rightarrow> json list \<Rightarrow> error + ustr list" where
  "collect_titles key text_content [] = Inr []"
| "collect_titles key text_content (item # json_data) =
     (case getitem item key of
        Inl e \<Rightarrow> Inl e
      | Inr v \<Rightarrow>
          (case title_found v text_content of
             Inl e \<Rightarrow> Inl e
           | Inr found \<Rightarrow>
               (case collect_titles key text_content json_data of
                  Inl e \<Rightarrow> Inl e
                | Inr ts \<Rightarrow> Inr (if found then str_of v # ts else ts))))"

definition check_and_collect_skills :: "ustr \<Rightarrow> json list option \<Rightarrow> error + ustr list option" where
  "check_and_collect_skills text_content json_data =
     (case json_data of
        None \<Rightarrow> Inr None
      | Some [] \<Rightarrow> Inr None
      | Some items \<Rightarrow>
          (case collect_titles (u ''title'') text_content items of
             Inl e \<Rightarrow> Inl e
           | Inr ts \<Rightarrow> Inr (Some ts)))"

fun getitems :: "ustr \<Rightarrow> json list \<Rightarrow> error + json list" where
  "getitems key [] = Inr []"
| "getitems key (item # json_data) =
     (case getitem item key of
        Inl e \<Rightarrow> Inl e
      | Inr v \<Rightarrow> (case getitems key json_data of Inl e \<Rightarrow> Inl e | Inr vs \<Rightarrow> Inr (v # vs)))"

fun matching :: "ustr \<Rightarrow> json list \<Rightarrow> error + ustr list" where
  "matching text_content [] = Inr []"
| "matching text_content (v # vs) =
     (case title_found v text_content of
        Inl e \<Rightarrow> Inl e
      | Inr found \<Rightarrow>
          (case matching text_content vs of
             Inl e \<Rightarrow> Inl e
           | Inr ts \<Rightarrow> Inr (if found then str_of v # ts else ts)))"

text \<open>
  The sort key of a designation: the least start of its matches, \<open>float("inf")\<close> when there
  is none. \<open>sorted\<close> is stable, as is \<open>sort_key\<close>.
\<close>

definition min_default :: "nat list \<Rightarrow> enat" where
  "min_default xs = (case xs of [] \<Rightarrow> \<infinity> | x # rest \<Rightarrow> enat (fold min rest x))"

definition first_start :: "ustr \<Rightarrow> ustr \<Rightarrow> enat" where
  "first_start text_content designation =
     min_default (map fst (re_finditer (word_pattern designation) icase text_content))"

definition check_and_collect_designation_ids ::
    "ustr \<Rightarrow> json list option \<Rightarrow> error + (ustr list \<times> ustr)" where
  "check_and_collect_designation_ids text_content json_data =
     (case json_data of
        None \<Rightarrow> Inl TypeError
      | Some items \<Rightarrow>
          (case getitems (u ''designation'') items of
             Inl e \<Rightarrow> Inl e
           | Inr all_designations \<Rightarrow>
               (case matching text_content all_designations of
                  Inl e \<Rightarrow> Inl e
                | Inr matching_designations \<Rightarrow>
                    (let sorted_designations =
                           sort_key (first_start text_content) matching_designations;
                         result_title =
                           (case sorted_designations of [] \<Rightarrow> [] | d # _ \<Rightarrow> d)
                     in Inr (sorted_designations, result_title)))))"

section \<open>Whole-word occurrences\<close>

text \<open>
  \<open>occurs_at t s i\<close>: the text \<open>s\<close> reads \<open>t\<close> at offset \<open>i\<close> up to letter case, with a word
  boundary on both sides. The matcher for the pattern of a title finds exactly these
  offsets.
\<close>

definition occurs_at :: "ustr \<Rightarrow> ustr \<Rightarrow> nat \<Rightarrow> bool" where
  "occurs_at t s i =
     (i + length t \<le> length s \<and> map lower (slice s i (i + length t)) = map lower t \<and>
      at_boundary s i \<and> at_boundary s (i + length t))"

lemma slice_Cons: "i < length s \<Longrightarrow> slice s i (Suc (i + n)) = s ! i # slice s (Suc i) (Suc (i + n))"
  unfolding slice_def by (simp add: Cons_nth_drop_Suc [symmetric])

lemma ms_lits:
  "i \<le> length s \<Longrightarrow> ms (lits t) icase s (i, c) =
    (if i + length t \<le> length s \<and> map lower (slice s i (i + length t)) = map lower t
     then [(i + length t, c)] else [])"
proof (induction t arbitrary: i)
  case Nil
  then show ?case by (simp add: lits_def)
next
  case (Cons a t)
  have l: "lits (a # t) = Seq (One (Lit a)) (lits t)" by (simp add: lits_def)
  show ?case
  proof (cases "i < length s")
    case False
    then show ?thesis unfolding l by simp
  next
    case True
    then have S: "Suc i \<le> length s" by simp
    show ?thesis
      unfolding l using Cons.IH [OF S] True
      by (simp add: slice_Cons icase_def)
  qed
qed

lemma ms_word_pattern:
  "i \<le> length s \<Longrightarrow> ms (word_pattern t) icase s (i, c) =
     (if occurs_at t s i then [(i + length t, c)] else [])"
  by (simp add: word_pattern_def ms_lits occurs_at_def)

definition occurs :: "ustr \<Rightarrow> ustr \<Rightarrow> bool" where
  "occurs s t = (\<exists>i. occurs_at t s i)"

definition earliest :: "ustr \<Rightarrow> ustr \<Rightarrow> nat" where
  "earliest s t = (LEAST i. occurs_at t s i)"

definition has_str :: "ustr \<Rightarrow> json \<Rightarrow> bool" where
  "has_str key item = (case getitem item key of Inr (JStr t) \<Rightarrow> True | _ \<Rightarrow> False)"

definition str_at :: "ustr \<Rightarrow> json \<Rightarrow> ustr" where
  "str_at key item = (case getitem item key of Inr v \<Rightarrow> str_of v | Inl e \<Rightarrow> [])"

lemma occurs_at_bound: "occurs_at t s i \<Longrightarrow> i \<le> length s"
  by (simp add: occurs_at_def)

lemma search_word_None: "re_search (word_pattern t) icase s = None \<longleftrightarrow> \<not> occurs s t"
proof -
  have "(\<forall>k \<le> length s. ms (word_pattern t) icase s (k, []) = []) \<longleftrightarrow> \<not> occurs s t"
  proof
    assume h: "\<forall>k \<le> length s. ms (word_pattern t) icase s (k, []) = []"
    show "\<not> occurs s t"
    proof
      assume "occurs s t"
      then obtain i where i: "occurs_at t s i" unfolding occurs_def by blast
      from occurs_at_bound [OF i] h have "ms (word_pattern t) icase s (i, []) = []" by blast
      with i occurs_at_bound [OF i] show False by (simp add: ms_word_pattern)
    qed
  next
    assume h: "\<not> occurs s t"
    show "\<forall>k \<le> length s. ms (word_pattern t) icase s (k, []) = []"
    proof (intro allI impI)
      fix k assume k: "k \<le> length s"
      from h have "\<not> occurs_at t s k" unfolding occurs_def by blast
      with k show "ms (word_pattern t) icase s (k, []) = []" by (simp add: ms_word_pattern)
    qed
  qed
  then show ?thesis unfolding re_search_None .
qed

lemma search_word_Some:
  assumes "re_search (word_pattern t) icase s = Some (a, b, c)"
  shows "a = earliest s t" "b = a + length t" "occurs_at t s a"
proof -
  note h = re_search_Some [OF assms]
  have a: "a \<le> length s" using h(1,2) by simp
  from h(3) obtain rest where r: "ms (word_pattern t) icase s (a, []) = (b, c) # rest" by blast
  then show occ: "occurs_at t s a" and "b = a + length t"
    using a by (simp_all add: ms_word_pattern split: if_splits)
  have "\<not> occurs_at t s k" if "k < a" for k
  proof -
    from that a have "k \<le> length s" by simp
    moreover from h(4) that have "ms (word_pattern t) icase s (k, []) = []" by blast
    ultimately show ?thesis by (simp add: ms_word_pattern split: if_splits)
  qed
  then have "(LEAST i. occurs_at t s i) = a"
    using occ by (intro Least_equality) (auto simp: not_less [symmetric])
  then show "a = earliest s t" by (simp add: earliest_def)
qed

lemma finditer_from_starts:
  "m \<in> set (finditer_from r fl s pos adv) \<Longrightarrow> pos \<le> fst m"
proof (induction r fl s pos adv rule: finditer_from.induct)
  case (1 r fl s pos adv)
  show ?case
  proof (cases "search_from r fl s pos adv")
    case None
    with "1.prems" show ?thesis by (simp add: finditer_from.simps)
  next
    case (Some m0)
    obtain a b c where m0: "m0 = (a, b, c)" by (cases m0)
    note h = search_from_Some [OF Some [unfolded m0]]
    from "1.prems" Some have "m = m0 \<or> m \<in> set (finditer_from r fl s (fst (snd m0)) (fst m0 = fst (snd m0)))"
      by (simp add: finditer_from.simps [of r fl s pos adv])
    then show ?thesis
    proof
      assume "m = m0"
      with h(1) m0 show ?thesis by simp
    next
      assume "m \<in> set (finditer_from r fl s (fst (snd m0)) (fst m0 = fst (snd m0)))"
      from "1.IH" [OF Some this] have "b \<le> fst m" using m0 by simp
      with h(1,2) show ?thesis by simp
    qed
  qed
qed

lemma fold_min_least: "\<forall>y \<in> set ys. (x::nat) \<le> y \<Longrightarrow> fold min ys x = x"
  by (induction ys) (simp_all add: min_absorb2)

lemma first_start_eq:
  "first_start s t = (if occurs s t then enat (earliest s t) else \<infinity>)"
proof (cases "re_search (word_pattern t) icase s")
  case None
  then have "\<not> occurs s t" by (simp add: search_word_None)
  moreover have "re_finditer (word_pattern t) icase s = []"
    using None by (simp add: re_finditer_def re_search_def finditer_from.simps)
  ultimately show ?thesis by (simp add: first_start_def min_default_def)
next
  case (Some m)
  obtain a b c where m: "m = (a, b, c)" by (cases m)
  note h = search_word_Some [OF Some [unfolded m]]
  have occ: "occurs s t" using Some search_word_None [of t s] by simp
  have fi: "re_finditer (word_pattern t) icase s =
      m # finditer_from (word_pattern t) icase s b (a = b)"
    using Some m by (simp add: re_finditer_def re_search_def finditer_from.simps [of _ _ _ 0])
  have "\<forall>y \<in> set (map fst (finditer_from (word_pattern t) icase s b (a = b))). a \<le> y"
  proof
    fix y assume "y \<in> set (map fst (finditer_from (word_pattern t) icase s b (a = b)))"
    then obtain m' where "m' \<in> set (finditer_from (word_pattern t) icase s b (a = b))" "y = fst m'"
      by auto
    from finditer_from_starts [OF this(1)] this(2) h(2) show "a \<le> y" by simp
  qed
  from fold_min_least [OF this] have "first_start s t = enat a"
    by (simp add: first_start_def fi m min_default_def)
  with occ h(1) show ?thesis by simp
qed

lemma title_found_str:
  "title_found (JStr t) s = Inr (occurs s t)"
  by (simp add: title_found_def search_word_None)

lemma getitems_ok:
  "list_all (has_str key) items \<Longrightarrow> getitems key items = Inr (map (JStr \<circ> str_at key) items)"
proof (induction items)
  case Nil
  then show ?case by simp
next
  case (Cons item items)
  from Cons.prems have "has_str key item" by simp
  then obtain t where t: "getitem item key = Inr (JStr t)"
    by (auto simp: has_str_def split: sum.splits json.splits)
  then have "str_at key item = t" by (simp add: str_at_def)
  with Cons t show ?case by simp
qed

lemma matching_ok:
  "matching s (map (JStr \<circ> f) items) = Inr (filter (occurs s) (map f items))"
  by (induction items) (simp_all add: title_found_str)

lemma collect_titles_ok:
  "list_all (has_str key) items \<Longrightarrow>
   collect_titles key s items = Inr (filter (occurs s) (map (str_at key) items))"
proof (induction items)
  case Nil
  then show ?case by simp
next
  case (Cons item items)
  from Cons.prems have "has_str key item" by simp
  then obtain t where t: "getitem item key = Inr (JStr t)"
    by (auto simp: has_str_def split: sum.splits json.splits)
  then have "str_at key item = t" by (simp add: str_at_def)
  with Cons t show ?case by (simp add: title_found_str)
qed

lemma insort_key_cong:
  "\<forall>y \<in> set ys. (f x \<le> f y) = (g x \<le> g y) \<Longrightarrow> insort_key f x ys = insort_key g x ys"
  by (induction ys) simp_all

lemma sort_key_cong_le:
  "\<forall>x \<in> set xs. \<forall>y \<in> set xs. (f x \<le> f y) = (g x \<le> g y) \<Longrightarrow> sort_key f xs = sort_key g xs"
proof (induction xs)
  case Nil
  then show ?case by simp
next
  case (Cons x xs)
  then have ih: "sort_key f xs = sort_key g xs" by simp
  have "insort_key f x (sort_key g xs) = insort_key g x (sort_key g xs)"
    using Cons.prems by (intro insort_key_cong) simp
  with ih show ?case by simp
qed

lemma sort_by_first_start:
  "sort_key (first_start s) (filter (occurs s) ts) = sort_key (earliest s) (filter (occurs s) ts)"
  by (rule sort_key_cong_le) (simp add: first_start_eq)

section \<open>Designations in order of first occurrence\<close>

definition primary :: "ustr list \<Rightarrow> ustr" where
  "primary ds = (case ds of [] \<Rightarrow> [] | d # _ \<Rightarrow> d)"

lemma check_and_collect_designation_ids_ok:
  assumes "list_all (has_str (u ''designation'')) items"
  shows "check_and_collect_designation_ids s (Some items) =
     Inr (sort_key (earliest s) (filter (occurs s) (map (str_at (u ''designation'')) items)),
          primary (sort_key (earliest s) (filter (occurs s) (map (str_at (u ''designation'')) items))))"
  unfolding check_and_collect_designation_ids_def
  by (simp add: getitems_ok [OF assms] matching_ok sort_by_first_start primary_def Let_def)

text \<open>
  For a designation list whose entries all carry a string under \<open>designation\<close>,
  \<open>check_and_collect_designation_ids\<close> returns exactly the titles that occur in the text
  as a whole word, case-insensitively, in ascending order of the start offset of their
  earliest occurrence (ties in reference-list order), and as primary title the first of
  them, or the empty string when none occurs. A title without occurrence is left out.
\<close>

theorem designations_by_first_occurrence:
  assumes "list_all (has_str (u ''designation'')) items"
  shows "\<exists>ds. check_and_collect_designation_ids s (Some items) = Inr (ds, primary ds) \<and>
     ds = sort_key (earliest s) (filter (occurs s) (map (str_at (u ''designation'')) items)) \<and>
     sorted (map (earliest s) ds) \<and>
     set ds = {t. t \<in> set (map (str_at (u ''designation'')) items) \<and> occurs s t}"
proof -
  let ?ts = "map (str_at (u ''designation'')) items"
  let ?ds = "sort_key (earliest s) (filter (occurs s) ?ts)"
  have "check_and_collect_designation_ids s (Some items) = Inr (?ds, primary ?ds)"
    by (rule check_and_collect_designation_ids_ok [OF assms])
  moreover have "sorted (map (earliest s) ?ds)" by simp
  moreover have "set ?ds = {t. t \<in> set ?ts \<and> occurs s t}" by simp
  ultimately show ?thesis by blast
qed

text \<open>
  The theorem at the list \<open>[Engineer, Manager]\<close> and a text that names the manager
  first, in capitals, and the engineer in lower case: the matcher returns
  \<open>[Manager, Engineer]\<close> with primary title \<open>Manager\<close>.
\<close>

theorem designations_by_first_occurrence_witness:
  "list_all (has_str (u ''designation''))
     [JObj [(u ''designation'', JStr (u ''Engineer''))],
      JObj [(u ''designation'', JStr (u ''Manager''))]] \<and>
   check_and_collect_designation_ids (u ''Senior MANAGER, later engineer'')
     (Some [JObj [(u ''designation'', JStr (u ''Engineer''))],
            JObj [(u ''designation'', JStr (u ''Manager''))]]) =
     Inr ([u ''Manager'', u ''Engineer''], u ''Manager'') \<and>
   sorted (map (earliest (u ''Senior MANAGER, later engineer'')) [u ''Manager'', u ''Engineer''])"
proof -
  let ?items = "[JObj [(u ''designation'', JStr (u ''Engineer''))],
      JObj [(u ''designation'', JStr (u ''Manager''))]]"
  let ?s = "u ''Senior MANAGER, later engineer''"
  have h: "list_all (has_str (u ''designation'')) ?items" by code_simp
  have e: "check_and_collect_designation_ids ?s (Some ?items) =
      Inr ([u ''Manager'', u ''Engineer''], u ''Manager'')" by code_simp
  from designations_by_first_occurrence [OF h, of ?s] obtain ds where
    ds: "check_and_collect_designation_ids ?s (Some ?items) = Inr (ds, primary ds)"
      "sorted (map (earliest ?s) ds)" by blast
  from trans [OF sym [OF e] ds(1)] have "[u ''Manager'', u ''Engineer''] = ds"
    unfolding sum.inject prod.inject by (rule conjunct1)
  with ds(2) have "sorted (map (earliest ?s) [u ''Manager'', u ''Engineer''])" by blast
  with h e show ?thesis by blast
qed

section \<open>String methods\<close>

text \<open>
  \<open>str.strip()\<close> and \<open>str.replace(old, new)\<close>. The replacement goes through the string from
  the left and continues after each occurrence it has replaced; with an empty \<open>old\<close> it puts
  \<open>new\<close> before every character and at the end.
\<close>

definition py_strip :: "ustr \<Rightarrow> ustr" where
  "py_strip s = rev (dropWhile is_space (rev (dropWhile is_space s)))"

function replace_from :: "ustr \<Rightarrow> ustr \<Rightarrow> ustr \<Rightarrow> ustr" where
  "replace_from old new [] = []"
| "replace_from old new (c # cs) =
     (if old \<noteq> [] \<and> take (length old) (c # cs) = old
      then new @ replace_from old new (drop (length old) (c # cs))
      else c # replace_from old new cs)"
  by pat_completeness auto
termination
  by (relation "measure (\<lambda>(old, new, s). length s)") auto

definition py_replace :: "ustr \<Rightarrow> ustr \<Rightarrow> ustr \<Rightarrow> ustr" where
  "py_replace s old new =
     (if old = [] then new @ concat (map (\<lambda>c. c # new) s) else replace_from old new s)"

section \<open>Pattern notation\<close>

text \<open>
  Abbreviations for writing the patterns of the program the way their source text reads.
\<close>

definition lit :: "char \<Rightarrow> regex" where
  "lit c = One (Lit (of_char c))"

definition str :: "string \<Rightarrow> regex" where
  "str s = lits (u s)"

definition chr :: "char \<Rightarrow> atom" where
  "chr c = Ch (of_char c)"

definition rng :: "char \<Rightarrow> char \<Rightarrow> atom" where
  "rng a b = Rng (of_char a) (of_char b)"

definition seqs :: "regex list \<Rightarrow> regex" where
  "seqs rs = foldr Seq rs Empty"

fun alts :: "regex list \<Rightarrow> regex" where
  "alts [] = One (Cls False [])"
| "alts [r] = r"
| "alts (r # rs) = Alt r (alts rs)"

definition star :: "regex \<Rightarrow> regex" where
  "star r = Rep 0 None True r"

definition plus :: "regex \<Rightarrow> regex" where
  "plus r = Rep 1 None True r"

definition opt :: "regex \<Rightarrow> regex" where
  "opt r = Rep 0 (Some 1) True r"

definition lazy_star :: "regex \<Rightarrow> regex" where
  "lazy_star r = Rep 0 None False r"

definition digit :: regex where
  "digit = One (Cls False [Dig])"

definition space :: regex where
  "space = One (Cls False [Spc])"

section \<open>main\_config.py\<close>

text \<open>
  The patterns, transcribed from their source text. In \<open>EMAIL_PATTERN\<close> the class
  \<open>[A-Z|a-z]\<close> holds the bar as a character.
\<close>

definition PINCODE_PATTERN :: regex where
  "PINCODE_PATTERN = seqs [Wb, Rep 6 (Some 6) True digit, Wb]"

definition EMAIL_PATTERN :: regex where
  "EMAIL_PATTERN = seqs
     [Wb,
      plus (One (Cls False [rng CHR ''A'' CHR ''Z'', rng CHR ''a'' CHR ''z'', rng CHR ''0'' CHR ''9'',
                            chr CHR ''.'', chr CHR ''_'', chr CHR ''%'', chr CHR ''+'', chr CHR ''-''])),
      lit CHR ''@'',
      plus (One (Cls False [rng CHR ''A'' CHR ''Z'', rng CHR ''a'' CHR ''z'', rng CHR ''0'' CHR ''9'',
                            chr CHR ''.'', chr CHR ''-''])),
      lit CHR ''.'',
      Rep 2 None True (One (Cls False [rng CHR ''A'' CHR ''Z'', chr CHR ''|'', rng CHR ''a'' CHR ''z''])),
      Wb]"

definition PHONE_PATTERN :: regex where
  "PHONE_PATTERN = Grp 1 (seqs
     [opt (lit CHR ''+''),
      Rep 0 (Some 3) True digit,
      opt (One (Cls False [chr CHR ''-'', Spc])),
      Rep 10 (Some 10) True digit])"

definition EXPERIENCE_DURATION_PATTERN :: regex where
  "EXPERIENCE_DURATION_PATTERN = seqs
     [Grp 1 (seqs [plus digit, opt (seqs [lit CHR ''.'', plus digit])]),
      star space,
      opt (lit CHR ''+''),
      star space,
      alts [seqs [One (Cls False [chr CHR ''y'', chr CHR ''Y'']), str ''ears''],
            seqs [One (Cls False [chr CHR ''y'', chr CHR ''Y'']), str ''ear''],
            seqs [One (Cls False [chr CHR ''m'', chr CHR ''M'']), str ''onth'', opt (lit CHR ''s'')]]]"

text \<open>
  \<open>match[n]\<close> for a group that took part in the match, which holds for every group the
  extractors read: each is outside any alternative and any optional part of its pattern.
\<close>

definition group_of :: "ustr \<Rightarrow> match \<Rightarrow> nat \<Rightarrow> ustr" where
  "group_of s m n = (case group s m n of Some g \<Rightarrow> g | None \<Rightarrow> [])"

definition extract_email :: "ustr \<Rightarrow> ustr option" where
  "extract_email text_content =
     (case re_search EMAIL_PATTERN noflags text_content of
        Some m \<Rightarrow> Some (group0 text_content m)
      | None \<Rightarrow> None)"

definition without_pincode :: "ustr \<Rightarrow> ustr" where
  "without_pincode text_content =
     (case re_search PINCODE_PATTERN noflags text_content of
        Some pincode \<Rightarrow> py_replace text_content (group0 text_content pincode) []
      | None \<Rightarrow> text_content)"

definition extract_phone :: "ustr \<Rightarrow> ustr option" where
  "extract_phone text_content =
     (let text_content = without_pincode text_content
      in case re_search PHONE_PATTERN noflags text_content of
           Some m \<Rightarrow>
             (let phone_number =
                    py_replace (py_replace (py_replace (group_of text_content m 1) (u ''-'') [])
                      (u '' '') []) [10] []
              in if 10 < length phone_number
                 then Some (take (length phone_number - 10) phone_number @ u '' '' @
                            drop (length phone_number - 10) phone_number)
                 else Some phone_number)
         | None \<Rightarrow> None)"

text \<open>
  \<open>float\<close> on the text of group 1 of \<open>EXPERIENCE_DURATION_PATTERN\<close>, digits with an optional
  point and more digits. The value is the exact decimal value; the rounding to a binary
  floating-point number is not represented.
\<close>

definition digits_value :: "ustr \<Rightarrow> int" where
  "digits_value ds = foldl (\<lambda>a d. 10 * a + (d - 48)) 0 ds"

definition float_of :: "ustr \<Rightarrow> rat" where
  "float_of s =
     (let ip = takeWhile (\<lambda>c. c \<noteq> 46) s; fp = drop (Suc (length ip)) s
      in of_int (digits_value ip) + of_int (digits_value fp) / 10 ^ length fp)"

definition extract_experience_duration :: "ustr \<Rightarrow> rat \<times> ustr" where
  "extract_experience_duration text =
     (case re_search EXPERIENCE_DURATION_PATTERN noflags text of
        Some m \<Rightarrow>
          (let numeric_value = float_of (group_of text m 1);
               duration_string = py_replace (group0 text m) [10] (u '' '')
           in (numeric_value, duration_string))
      | None \<Rightarrow> (0, u ''0''))"

section \<open>Facts about the languages of patterns\<close>

declare lang.simps(4) [simp del]

lemma noflags_simps [simp]: "ignorecase noflags = False" "dotall noflags = False"
  by (simp_all add: noflags_def)

lemma icase_simps [simp]: "ignorecase icase = True" "dotall icase = False"
  by (simp_all add: icase_def)

lemma lang_seqs_Nil [simp]: "lang fl (seqs []) = {[]}"
  by (simp add: seqs_def)

lemma lang_seqs_Cons [simp]:
  "lang fl (seqs (r # rs)) = {v @ w | v w. v \<in> lang fl r \<and> w \<in> lang fl (seqs rs)}"
  by (simp add: seqs_def)

lemma lang_seqs_ConsE:
  assumes "w \<in> lang fl (seqs (r # rs))"
  obtains v w' where "w = v @ w'" "v \<in> lang fl r" "w' \<in> lang fl (seqs rs)"
  using assms unfolding lang_seqs_Cons by blast

lemma lang_seqs_ConsI:
  "v \<in> lang fl r \<Longrightarrow> w' \<in> lang fl (seqs rs) \<Longrightarrow> v @ w' \<in> lang fl (seqs (r # rs))"
  unfolding lang_seqs_Cons by blast

lemma concat_singletons: "concat (map (\<lambda>c. [c]) w) = w"
  by (induction w) simp_all

lemma lang_rep_one:
  "lang fl (Rep lo hi g (One x)) =
     {w. list_all (item_ok fl x) w \<and> lo \<le> length w \<and> (\<forall>h. hi = Some h \<longrightarrow> length w \<le> h)}"
proof (intro set_eqI iffI)
  fix w assume "w \<in> lang fl (Rep lo hi g (One x))"
  then obtain ws where ws: "w = concat ws" "lo \<le> length ws" "\<forall>h. hi = Some h \<longrightarrow> length ws \<le> h"
    "\<forall>v \<in> set ws. (\<exists>c. v = [c] \<and> item_ok fl x c)" by (auto simp: lang.simps(4))
  from ws(4) have "list_all (item_ok fl x) (concat ws) \<and> length (concat ws) = length ws"
  proof (induction ws)
    case Nil
    then show ?case by simp
  next
    case (Cons v ws)
    then obtain c where "v = [c]" "item_ok fl x c" by auto
    with Cons show ?case by simp
  qed
  with ws show "w \<in> {w. list_all (item_ok fl x) w \<and> lo \<le> length w \<and>
      (\<forall>h. hi = Some h \<longrightarrow> length w \<le> h)}" by simp
next
  fix w assume "w \<in> {w. list_all (item_ok fl x) w \<and> lo \<le> length w \<and>
      (\<forall>h. hi = Some h \<longrightarrow> length w \<le> h)}"
  then have w: "list_all (item_ok fl x) w" "lo \<le> length w" "\<forall>h. hi = Some h \<longrightarrow> length w \<le> h"
    by simp_all
  let ?ws = "map (\<lambda>c. [c]) w"
  have a: "w = concat ?ws" by (simp add: concat_singletons)
  have b: "\<forall>v \<in> set ?ws. v \<in> lang fl (One x) \<and> v \<noteq> []"
    using w(1) by (auto simp: list_all_iff)
  have c: "length ?ws = length w" by simp
  have "w = concat ?ws \<and> lo \<le> length ?ws \<and> (\<forall>h. hi = Some h \<longrightarrow> length ?ws \<le> h) \<and>
      (\<forall>v \<in> set ?ws. v \<in> lang fl (One x) \<and> v \<noteq> [])"
    using a b w(2,3) unfolding c by blast
  then show "w \<in> lang fl (Rep lo hi g (One x))"
    unfolding lang.simps by (intro CollectI exI [of _ ?ws])
qed

lemma lang_opt: "lang fl (opt r) = insert [] {w. w \<in> lang fl r \<and> w \<noteq> []}"
proof (intro set_eqI iffI)
  fix w assume "w \<in> lang fl (opt r)"
  then obtain ws where ws: "w = concat ws" "length ws \<le> 1" "\<forall>v \<in> set ws. v \<in> lang fl r \<and> v \<noteq> []"
    by (auto simp: opt_def lang.simps(4))
  show "w \<in> insert [] {w. w \<in> lang fl r \<and> w \<noteq> []}"
  proof (cases ws)
    case Nil
    with ws show ?thesis by simp
  next
    case (Cons v vs)
    with ws(2) have "vs = []" by simp
    with Cons ws show ?thesis by simp
  qed
next
  fix w assume "w \<in> insert [] {w. w \<in> lang fl r \<and> w \<noteq> []}"
  then consider "w = []" | "w \<in> lang fl r" "w \<noteq> []" by auto
  then show "w \<in> lang fl (opt r)"
  proof cases
    case 1
    have "[] = concat ([] :: ustr list)" by simp
    then show ?thesis unfolding 1 opt_def lang.simps
      by (intro CollectI exI [of _ "[]"]) simp
  next
    case 2
    have "w = concat [w]" by simp
    then show ?thesis unfolding opt_def lang.simps using 2
      by (intro CollectI exI [of _ "[w]"]) simp
  qed
qed

lemma lang_lits_noflags: "lang noflags (lits t) = {t}"
proof (induction t)
  case Nil
  then show ?case by (simp add: lits_def)
next
  case (Cons a t)
  have "lits (a # t) = Seq (One (Lit a)) (lits t)" by (simp add: lits_def)
  then show ?case using Cons by (simp add: noflags_def)
qed

lemma lang_str [simp]: "lang noflags (str s) = {u s}"
  by (simp add: str_def lang_lits_noflags)

lemma lang_lit [simp]: "lang noflags (lit c) = {[of_char c]}"
  by (auto simp: lit_def noflags_def)

section \<open>Capture groups\<close>

lemma ms_Seq_mem:
  "(j, c') \<in> set (ms (Seq a b) fl s st) \<Longrightarrow>
   \<exists>k c1. (k, c1) \<in> set (ms a fl s st) \<and> (j, c') \<in> set (ms b fl s (k, c1))"
  by auto

lemma ms_Grp_mem:
  "(j, c') \<in> set (ms (Grp n r) fl s (i, c)) \<Longrightarrow>
   \<exists>c1. c' = (n, i, j) # c1 \<and> (j, c1) \<in> set (ms r fl s (i, c))"
  by auto

fun nogroups :: "regex \<Rightarrow> bool" where
  "nogroups (One x) = True"
| "nogroups (Seq a b) = (nogroups a \<and> nogroups b)"
| "nogroups (Alt a b) = (nogroups a \<and> nogroups b)"
| "nogroups (Rep lo hi g r) = nogroups r"
| "nogroups (Grp n r) = False"
| "nogroups (Ahead r) = nogroups r"
| "nogroups r = True"

lemma rep_caps:
  assumes "\<And>i c j c'. (j, c') \<in> set (f (i, c)) \<Longrightarrow> c' = c"
  shows "(j, c') \<in> set (rep n f lo hi g (i, c)) \<Longrightarrow> c' = c"
proof (induction n arbitrary: i lo hi)
  case 0
  then show ?case by (auto split: if_splits)
next
  case (Suc n)
  from Suc.prems consider
      (stop) "lo = 0" "(j, c') = (i, c)"
    | (more) k c1 where "(k, c1) \<in> set (f (i, c))"
        "(j, c') \<in> set (rep n f (lo - 1) (map_option (\<lambda>h. h - 1) hi) g (k, c1))"
    by (auto simp: Let_def split: if_splits)
  then show ?case
  proof cases
    case stop
    then show ?thesis by simp
  next
    case more
    from assms [OF more(1)] have "c1 = c" .
    with more(2) Suc.IH show ?thesis by blast
  qed
qed

lemma ms_nogroups:
  "nogroups r \<Longrightarrow> (j, c') \<in> set (ms r fl s (i, c)) \<Longrightarrow> c' = c"
proof (induction r arbitrary: i c j c')
  case (One x)
  then show ?case by (simp split: if_splits)
next
  case (Seq a b)
  from Seq.prems(2) obtain k c1 where k: "(k, c1) \<in> set (ms a fl s (i, c))"
    "(j, c') \<in> set (ms b fl s (k, c1))" by auto
  from Seq.IH(1) [OF _ k(1)] Seq.prems(1) have "c1 = c" by simp
  moreover from Seq.IH(2) [OF _ k(2)] Seq.prems(1) have "c' = c1" by simp
  ultimately show ?case by simp
next
  case (Alt a b)
  from Alt.prems(2) have "(j, c') \<in> set (ms a fl s (i, c)) \<or> (j, c') \<in> set (ms b fl s (i, c))"
    by simp
  with Alt.IH Alt.prems(1) show ?case by auto
next
  case (Rep lo hi g r)
  from Rep.prems have n: "nogroups r" and
    m: "(j, c') \<in> set (rep (length s - i) (ms r fl s) lo hi g (i, c))" by simp_all
  show ?case by (rule rep_caps [OF _ m]) (rule Rep.IH [OF n])
next
  case (Grp n r)
  then show ?case by simp
next
  case (Ahead r)
  show ?case
  proof (cases "ms r fl s (i, c)")
    case Nil
    with Ahead.prems(2) show ?thesis by simp
  next
    case (Cons st' rest)
    with Ahead.prems(2) have c': "c' = snd st'" by simp
    from Cons have "(fst st', snd st') \<in> set (ms r fl s (i, c))" by simp
    from Ahead.IH [OF _ this] Ahead.prems(1) c' show ?thesis by simp
  qed
qed (simp_all split: if_splits)

section \<open>Replacing single characters\<close>

lemma replace_from_delete: "replace_from [x] [] s = filter (\<lambda>c. c \<noteq> x) s"
  by (induction s) auto

lemma py_replace_delete: "py_replace s [x] [] = filter (\<lambda>c. c \<noteq> x) s"
  by (simp add: py_replace_def replace_from_delete)

lemma replace_from_char: "replace_from [x] [y] s = map (\<lambda>c. if c = x then y else c) s"
  by (induction s) auto

lemma py_replace_char: "py_replace s [x] [y] = map (\<lambda>c. if c = x then y else c) s"
  by (simp add: py_replace_def replace_from_char)

lemma slice_in_context:
  "a \<le> b \<Longrightarrow> b \<le> length s \<Longrightarrow> s = take a s @ slice s a b @ drop b s"
proof -
  assume h: "a \<le> b" "b \<le> length s"
  have "slice s 0 a @ slice s a b = slice s 0 b" using h by (intro slice_append) simp_all
  moreover have "slice s 0 a = take a s" "slice s 0 b = take b s" by (simp_all add: slice_def)
  ultimately have e: "take a s @ slice s a b = take b s" by simp
  have "(take a s @ slice s a b) @ drop b s = s" unfolding e by (rule append_take_drop_id)
  then show ?thesis by simp
qed

section \<open>Phone numbers\<close>

definition phone_parts :: "ustr \<Rightarrow> ustr \<Rightarrow> ustr \<Rightarrow> ustr \<Rightarrow> bool" where
  "phone_parts pl cc sep ds =
     ((pl = [] \<or> pl = u ''+'') \<and> list_all is_digit cc \<and> length cc \<le> 3 \<and>
      (sep = [] \<or> sep = u ''-'' \<or> (\<exists>c. sep = [c] \<and> is_space c)) \<and>
      list_all is_digit ds \<and> length ds = 10)"

definition kept :: "int \<Rightarrow> bool" where
  "kept c = (c \<noteq> 45 \<and> c \<noteq> 32 \<and> c \<noteq> 10)"

lemma phone_lang:
  assumes "w \<in> lang noflags PHONE_PATTERN"
  shows "\<exists>pl cc sep ds. w = pl @ cc @ sep @ ds \<and> phone_parts pl cc sep ds"
proof -
  from assms have "w \<in> lang noflags (seqs
     [opt (lit CHR ''+''), Rep 0 (Some 3) True digit,
      opt (One (Cls False [chr CHR ''-'', Spc])), Rep 10 (Some 10) True digit])"
    unfolding PHONE_PATTERN_def by simp
  then obtain pl w1 where 1: "w = pl @ w1" "pl \<in> lang noflags (opt (lit CHR ''+''))"
    "w1 \<in> lang noflags (seqs [Rep 0 (Some 3) True digit,
        opt (One (Cls False [chr CHR ''-'', Spc])), Rep 10 (Some 10) True digit])"
    by (rule lang_seqs_ConsE)
  from 1(3) obtain cc w2 where 2: "w1 = cc @ w2" "cc \<in> lang noflags (Rep 0 (Some 3) True digit)"
    "w2 \<in> lang noflags (seqs [opt (One (Cls False [chr CHR ''-'', Spc])), Rep 10 (Some 10) True digit])"
    by (rule lang_seqs_ConsE)
  from 2(3) obtain sep w3 where 3: "w2 = sep @ w3"
    "sep \<in> lang noflags (opt (One (Cls False [chr CHR ''-'', Spc])))"
    "w3 \<in> lang noflags (seqs [Rep 10 (Some 10) True digit])"
    by (rule lang_seqs_ConsE)
  from 3(3) obtain w4 w5 where "w3 = w4 @ w5" "w4 \<in> lang noflags (Rep 10 (Some 10) True digit)"
    "w5 \<in> lang noflags (seqs [])"
    by (rule lang_seqs_ConsE)
  then have 4: "w3 \<in> lang noflags (Rep 10 (Some 10) True digit)" by simp
  have pl: "pl = [] \<or> pl = u ''+''" using 1(2) by (auto simp: lang_opt u_def)
  have cc: "list_all is_digit cc" "length cc \<le> 3"
    using 2(2) by (simp_all add: digit_def lang_rep_one noflags_def list_all_iff)
  have sep: "sep = [] \<or> sep = u ''-'' \<or> (\<exists>c. sep = [c] \<and> is_space c)"
    using 3(2) by (auto simp: lang_opt noflags_def chr_def u_def)
  have ds: "list_all is_digit w3" "length w3 = 10"
    using 4 by (simp_all add: digit_def lang_rep_one noflags_def list_all_iff)
  have "w = pl @ cc @ sep @ w3" using 1(1) 2(1) 3(1) by simp
  with pl cc sep ds show ?thesis unfolding phone_parts_def by blast
qed

lemma digit_kept: "is_digit c \<Longrightarrow> kept c"
  by (simp add: is_digit_def kept_def)

lemma filter_kept_digits: "list_all is_digit ds \<Longrightarrow> filter kept ds = ds"
  by (induction ds) (simp_all add: digit_kept)

lemma strip_phone: "py_replace (py_replace (py_replace w (u ''-'') []) (u '' '') []) [10] [] = filter kept w"
proof -
  have "(\<lambda>c. c \<noteq> 45 \<and> c \<noteq> 32 \<and> c \<noteq> (10::int)) = kept" by (simp add: kept_def fun_eq_iff)
  then show ?thesis by (simp add: u_def py_replace_delete conj_commute conj_left_commute)
qed

lemma PHONE_group1:
  assumes "re_search PHONE_PATTERN noflags s = Some m"
  shows "group_of s m 1 = group0 s m" "fst m \<le> fst (snd m)" "fst (snd m) \<le> length s"
    "group0 s m \<in> lang noflags PHONE_PATTERN"
proof -
  obtain a b c where m: "m = (a, b, c)" by (cases m)
  note h = re_search_Some [OF assms [unfolded m]]
  from h(3) have mem: "(b, c) \<in> set (ms PHONE_PATTERN noflags s (a, []))" by auto
  then obtain c1 where "c = (1, a, b) # c1"
    unfolding PHONE_PATTERN_def using ms_Grp_mem by blast
  then show "group_of s m 1 = group0 s m" by (simp add: group_of_def group_def group0_def m)
  from h(1,2) show "fst m \<le> fst (snd m)" "fst (snd m) \<le> length s" by (simp_all add: m)
  have "a \<le> length s" using h(1,2) by simp
  from sound_atD(3) [OF ms_sound this mem] show "group0 s m \<in> lang noflags PHONE_PATTERN"
    by (simp add: group0_def m)
qed

lemma extract_phone_render:
  assumes m: "re_search PHONE_PATTERN noflags (without_pincode text_content) = Some m"
    and w: "group0 (without_pincode text_content) m = pl @ cc @ sep @ ds"
    and p: "phone_parts pl cc sep ds"
  shows "extract_phone text_content =
     Some (if pl @ cc @ filter kept sep = [] then ds
           else (pl @ cc @ filter kept sep) @ u '' '' @ ds)"
proof -
  let ?t = "without_pincode text_content"
  note g = PHONE_group1 [OF m]
  let ?w = "group0 ?t m"
  let ?p = "filter kept ?w"
  let ?code = "pl @ cc @ filter kept sep"
  from p have pl: "filter kept pl = pl" by (auto simp: phone_parts_def kept_def u_def)
  from p have cc: "filter kept cc = cc" and ds: "filter kept ds = ds" "length ds = 10"
    by (simp_all add: phone_parts_def filter_kept_digits)
  have pw: "?p = ?code @ ds" unfolding w by (simp add: pl cc ds)
  have e: "extract_phone text_content =
      (if 10 < length ?p then Some (take (length ?p - 10) ?p @ u '' '' @ drop (length ?p - 10) ?p)
       else Some ?p)"
    unfolding extract_phone_def Let_def m option.case strip_phone g(1) ..
  have len: "length ?p - 10 = length ?code" unfolding pw using ds(2) by simp
  show ?thesis
  proof (cases "?code = []")
    case True
    then have "?p = ds" using pw by simp
    with e ds(2) True show ?thesis by simp
  next
    case False
    then have "10 < length ?p" unfolding pw using ds(2) by (cases ?code) simp_all
    with e have "extract_phone text_content =
        Some (take (length ?code) ?p @ u '' '' @ drop (length ?code) ?p)"
      unfolding len by simp
    also have "\<dots> = Some (?code @ u '' '' @ ds)" unfolding pw by simp
    finally have "extract_phone text_content = Some (?code @ u '' '' @ ds)" .
    then show ?thesis by (simp only: False if_False)
  qed
qed

lemma slice_middle: "slice (pre @ w @ post) (length pre) (length pre + length w) = w"
  by (simp add: slice_def)

lemma phone_lang_complete:
  assumes "phone_parts pl cc sep ds"
  shows "pl @ cc @ sep @ ds \<in> lang noflags PHONE_PATTERN"
proof -
  from assms have pl: "pl \<in> lang noflags (opt (lit CHR ''+''))"
    by (auto simp: phone_parts_def lang_opt u_def)
  from assms have cc: "cc \<in> lang noflags (Rep 0 (Some 3) True digit)"
    unfolding digit_def lang_rep_one by (simp add: phone_parts_def noflags_def list_all_iff)
  from assms have sep: "sep \<in> lang noflags (opt (One (Cls False [chr CHR ''-'', Spc])))"
    by (auto simp: phone_parts_def lang_opt noflags_def chr_def u_def)
  from assms have ds: "ds \<in> lang noflags (Rep 10 (Some 10) True digit)"
    unfolding digit_def lang_rep_one by (simp add: phone_parts_def noflags_def list_all_iff)
  have "ds @ [] \<in> lang noflags (seqs [Rep 10 (Some 10) True digit])"
    by (rule lang_seqs_ConsI [OF ds]) simp
  from lang_seqs_ConsI [OF sep this]
  have "sep @ ds \<in> lang noflags (seqs [opt (One (Cls False [chr CHR ''-'', Spc])),
      Rep 10 (Some 10) True digit])" by simp
  from lang_seqs_ConsI [OF pl lang_seqs_ConsI [OF cc this]]
  show ?thesis unfolding PHONE_PATTERN_def by simp
qed

lemma plain_PHONE: "plain PHONE_PATTERN"
  by (simp add: PHONE_PATTERN_def seqs_def opt_def digit_def lit_def)

section \<open>Order of the matches of a repeated character\<close>

text \<open>
  A greedy repetition of a single character lists its matches from the longest to the
  shortest.
\<close>

lemma rep_one_desc:
  assumes f: "\<And>st. f st = [] \<or> (\<exists>c. f st = [(Suc (fst st), c)])"
  shows "sorted_wrt (\<lambda>x y. fst y < fst x) (rep n f lo hi True st) \<and>
     (\<forall>x \<in> set (rep n f lo hi True st). fst st \<le> fst x)"
proof (induction n arbitrary: lo hi st)
  case 0
  show ?case by simp
next
  case (Suc n)
  show ?case
  proof (cases "hi = Some 0 \<or> f st = []")
    case True
    then show ?thesis by (auto simp: Let_def)
  next
    case False
    with f [of st] obtain c where c: "f st = [(Suc (fst st), c)]" by blast
    let ?more = "rep n f (lo - 1) (map_option (\<lambda>h. h - 1) hi) True (Suc (fst st), c)"
    have r: "rep (Suc n) f lo hi True st = ?more @ (if lo = 0 then [st] else [])"
      using False by (simp add: c Let_def)
    from Suc.IH [of "lo - 1" "map_option (\<lambda>h. h - 1) hi" "(Suc (fst st), c)"]
    have ih: "sorted_wrt (\<lambda>x y. fst y < fst x) ?more" "\<forall>x \<in> set ?more. Suc (fst st) \<le> fst x"
      by simp_all
    have "\<forall>x \<in> set ?more. fst st < fst x \<and> fst st \<le> fst x"
    proof
      fix x assume "x \<in> set ?more"
      with ih(2) have "Suc (fst st) \<le> fst x" by blast
      then show "fst st < fst x \<and> fst st \<le> fst x" by simp
    qed
    with ih(1) show ?thesis unfolding r by (simp add: sorted_wrt_append)
  qed
qed

lemma ms_rep_one_desc:
  "sorted_wrt (\<lambda>x y. fst y < fst x) (ms (Rep lo hi True (One x)) fl s st)"
proof -
  have "\<And>st. ms (One x) fl s st = [] \<or> (\<exists>c. ms (One x) fl s st = [(Suc (fst st), c)])"
    by simp
  from rep_one_desc [of "ms (One x) fl s", OF this] show ?thesis by simp
qed

lemma concat_desc:
  assumes "sorted_wrt (\<lambda>x y. fst y < fst x) xs"
    and "\<And>x. x \<in> set xs \<Longrightarrow> sorted_wrt (\<lambda>x y. fst y \<le> fst x) (g x)"
    and "\<And>x y. x \<in> set xs \<Longrightarrow> y \<in> set (g x) \<Longrightarrow> fst x + a \<le> fst y \<and> fst y \<le> Suc (fst x + a)"
  shows "sorted_wrt (\<lambda>x y. fst y \<le> fst x) (concat (map g xs))"
  using assms
proof (induction xs)
  case Nil
  show ?case by simp
next
  case (Cons x xs)
  have 1: "sorted_wrt (\<lambda>x y. fst y \<le> fst x) (concat (map g xs))"
  proof (rule Cons.IH)
    show "sorted_wrt (\<lambda>x y. fst y < fst x) xs" using Cons.prems(1) by simp
    show "\<And>x. x \<in> set xs \<Longrightarrow> sorted_wrt (\<lambda>x y. fst y \<le> fst x) (g x)"
      using Cons.prems(2) by simp
    show "\<And>x y. x \<in> set xs \<Longrightarrow> y \<in> set (g x) \<Longrightarrow>
        fst x + a \<le> fst y \<and> fst y \<le> Suc (fst x + a)"
      using Cons.prems(3) by simp
  qed
  have 2: "\<forall>y \<in> set (g x). \<forall>z \<in> set (concat (map g xs)). fst z \<le> fst y"
  proof (intro ballI)
    fix y z
    assume y: "y \<in> set (g x)" and z: "z \<in> set (concat (map g xs))"
    from z obtain x' where x': "x' \<in> set xs" "z \<in> set (g x')" by auto
    from Cons.prems(1) x'(1) have "fst x' < fst x" by simp
    moreover from Cons.prems(3) [of x y] y have "fst x + a \<le> fst y" by simp
    moreover from Cons.prems(3) [of x' z] x' have "fst z \<le> Suc (fst x' + a)" by simp
    ultimately show "fst z \<le> fst y" by simp
  qed
  have 3: "sorted_wrt (\<lambda>x y. fst y \<le> fst x) (g x)" using Cons.prems(2) by simp
  from 1 2 3 show ?case by (simp add: sorted_wrt_append)
qed

lemma ms_seqs_Nil: "ms (seqs []) fl s st = [st]"
  by (simp add: seqs_def)

lemma ms_seqs_Cons: "ms (seqs (r # rs)) fl s st = concat (map (ms (seqs rs) fl s) (ms r fl s st))"
  by (simp add: seqs_def)

lemma ms_Empty_fun: "ms Empty fl s = (\<lambda>st. [st])"
  by (simp add: fun_eq_iff)

lemma ms_seqs_one: "ms (seqs [r]) fl s st = ms r fl s st"
  by (simp add: seqs_def ms_Empty_fun concat_singletons)

section \<open>The span that the phone pattern matches\<close>

abbreviation phone_code :: regex where
  "phone_code \<equiv> Rep 0 (Some 3) True digit"

abbreviation phone_sep :: regex where
  "phone_sep \<equiv> opt (One (Cls False [chr CHR ''-'', Spc]))"

abbreviation phone_digits :: regex where
  "phone_digits \<equiv> Rep 10 (Some 10) True digit"

lemma ms_bounds:
  assumes "i \<le> length s" "(j, c') \<in> set (ms r fl s (i, c))"
  shows "i \<le> j" "j \<le> length s" "slice s i j \<in> lang fl r" "length (slice s i j) = j - i"
proof -
  from sound_atD [OF ms_sound assms]
  show 1: "i \<le> j" "j \<le> length s" "slice s i j \<in> lang fl r" by simp_all
  from 1(2) show "length (slice s i j) = j - i" by (rule length_slice)
qed

lemma digits_lang: "w \<in> lang noflags (seqs [phone_digits]) \<Longrightarrow> length w = 10"
  by (auto simp: digit_def lang_rep_one)

lemma sep_digits_lang:
  assumes "w \<in> lang noflags (seqs [phone_sep, phone_digits])"
  shows "10 \<le> length w \<and> length w \<le> 11"
proof -
  from assms obtain v w' where w: "w = v @ w'" "v \<in> lang noflags phone_sep"
    "w' \<in> lang noflags (seqs [phone_digits])"
    by (rule lang_seqs_ConsE)
  from w(2) have "length v \<le> 1" by (auto simp: lang_opt)
  with digits_lang [OF w(3)] show ?thesis unfolding w(1) by simp
qed

lemma tail_lang:
  assumes "w \<in> lang noflags (seqs [phone_code, phone_sep, phone_digits])"
  shows "\<exists>cc sep ds. w = cc @ sep @ ds \<and> phone_parts [] cc sep ds"
proof -
  from assms obtain cc w2 where 2: "w = cc @ w2" "cc \<in> lang noflags phone_code"
    "w2 \<in> lang noflags (seqs [phone_sep, phone_digits])"
    by (rule lang_seqs_ConsE)
  from 2(3) obtain sep w3 where 3: "w2 = sep @ w3" "sep \<in> lang noflags phone_sep"
    "w3 \<in> lang noflags (seqs [phone_digits])"
    by (rule lang_seqs_ConsE)
  from 3(3) obtain w4 w5 where "w3 = w4 @ w5" "w4 \<in> lang noflags phone_digits"
    "w5 \<in> lang noflags (seqs [])"
    by (rule lang_seqs_ConsE)
  then have 4: "w3 \<in> lang noflags phone_digits" by simp
  have cc: "list_all is_digit cc" "length cc \<le> 3"
    using 2(2) by (simp_all add: digit_def lang_rep_one noflags_def list_all_iff)
  have sep: "sep = [] \<or> sep = u ''-'' \<or> (\<exists>c. sep = [c] \<and> is_space c)"
    using 3(2) by (auto simp: lang_opt noflags_def chr_def u_def)
  have ds: "list_all is_digit w3" "length w3 = 10"
    using 4 by (simp_all add: digit_def lang_rep_one noflags_def list_all_iff)
  have "w = cc @ sep @ w3" using 2(1) 3(1) by simp
  with cc sep ds show ?thesis unfolding phone_parts_def by blast
qed

lemma desc_sep_digits:
  assumes q: "q \<le> length s"
  shows "sorted_wrt (\<lambda>x y. fst y \<le> fst x) (ms (seqs [phone_sep, phone_digits]) noflags s (q, c))"
  unfolding ms_seqs_Cons [of phone_sep]
proof (rule concat_desc [where a = 10])
  show "sorted_wrt (\<lambda>x y. fst y < fst x) (ms phone_sep noflags s (q, c))"
    unfolding opt_def by (rule ms_rep_one_desc)
next
  fix x
  have "sorted_wrt (\<lambda>x y. fst y < fst x) (ms phone_digits noflags s x)"
    unfolding digit_def by (rule ms_rep_one_desc)
  then show "sorted_wrt (\<lambda>x y. fst y \<le> fst x) (ms (seqs [phone_digits]) noflags s x)"
    unfolding ms_seqs_one by (rule sorted_wrt_mono_rel [rotated]) simp
next
  fix x y
  assume x: "x \<in> set (ms phone_sep noflags s (q, c))"
    and y: "y \<in> set (ms (seqs [phone_digits]) noflags s x)"
  obtain q' c1 where x': "x = (q', c1)" by (cases x)
  obtain j c' where y': "y = (j, c')" by (cases y)
  from ms_bounds(2) [OF q x [unfolded x']] have q': "q' \<le> length s" .
  note b = ms_bounds [OF q' y [unfolded x' y']]
  from digits_lang [OF b(3)] b(4) b(1) have "j = q' + 10" by simp
  then show "fst x + 10 \<le> fst y \<and> fst y \<le> Suc (fst x + 10)" by (simp add: x' y')
qed

lemma desc_tail:
  assumes p: "p \<le> length s"
  shows "sorted_wrt (\<lambda>x y. fst y \<le> fst x)
     (ms (seqs [phone_code, phone_sep, phone_digits]) noflags s (p, c))"
  unfolding ms_seqs_Cons [of phone_code]
proof (rule concat_desc [where a = 10])
  show "sorted_wrt (\<lambda>x y. fst y < fst x) (ms phone_code noflags s (p, c))"
    unfolding digit_def by (rule ms_rep_one_desc)
next
  fix x
  assume x: "x \<in> set (ms phone_code noflags s (p, c))"
  obtain q c1 where x': "x = (q, c1)" by (cases x)
  from ms_bounds(2) [OF p x [unfolded x']] have "q \<le> length s" .
  then show "sorted_wrt (\<lambda>x y. fst y \<le> fst x) (ms (seqs [phone_sep, phone_digits]) noflags s x)"
    unfolding x' by (rule desc_sep_digits)
next
  fix x y
  assume x: "x \<in> set (ms phone_code noflags s (p, c))"
    and y: "y \<in> set (ms (seqs [phone_sep, phone_digits]) noflags s x)"
  obtain q c1 where x': "x = (q, c1)" by (cases x)
  obtain j c' where y': "y = (j, c')" by (cases y)
  from ms_bounds(2) [OF p x [unfolded x']] have q: "q \<le> length s" .
  note b = ms_bounds [OF q y [unfolded x' y']]
  from sep_digits_lang [OF b(3)] b(4) b(1) have "q + 10 \<le> j \<and> j \<le> Suc (q + 10)" by arith
  then show "fst x + 10 \<le> fst y \<and> fst y \<le> Suc (fst x + 10)" by (simp add: x' y')
qed

lemma rep_stop: "rep n f 0 (Some 0) g st = [st]"
  by (cases n) (simp_all add: Let_def)

lemma ms_opt_one:
  "ms (opt (One x)) fl s (i, c) =
     (if i < length s \<and> item_ok fl x (s ! i) then [(Suc i, c), (i, c)] else [(i, c)])"
proof (cases "length s - i")
  case 0
  then show ?thesis by (simp add: opt_def)
next
  case (Suc m)
  then show ?thesis by (simp add: opt_def Let_def rep_stop)
qed

lemma slice_hd: "i < j \<Longrightarrow> j \<le> length s \<Longrightarrow> slice s i j = s ! i # slice s (Suc i) j"
  using slice_Cons [of i s "j - Suc i"] by simp

lemma no_tail_at_plus:
  assumes i: "i < length s" and plus: "s ! i = 43"
  shows "ms (seqs [phone_code, phone_sep, phone_digits]) noflags s (i, c) = []"
proof (rule ccontr)
  assume "ms (seqs [phone_code, phone_sep, phone_digits]) noflags s (i, c) \<noteq> []"
  then obtain j c' where
    m: "(j, c') \<in> set (ms (seqs [phone_code, phone_sep, phone_digits]) noflags s (i, c))"
    by (cases "ms (seqs [phone_code, phone_sep, phone_digits]) noflags s (i, c)") auto
  from i have i': "i \<le> length s" by simp
  note b = ms_bounds [OF i' m]
  from tail_lang [OF b(3)] obtain cc sep ds where
    w: "slice s i j = cc @ sep @ ds" and p: "phone_parts [] cc sep ds" by blast
  from p have ds: "length ds = 10" by (simp add: phone_parts_def)
  with w b(4) have "i < j" by (cases "i < j") simp_all
  from slice_hd [OF this b(2)] plus w have e: "cc @ sep @ ds = 43 # slice s (Suc i) j" by simp
  show False
  proof (cases cc)
    case (Cons d cc')
    with e have "d = 43" by simp
    with p Cons show False by (simp add: phone_parts_def is_digit_def)
  next
    case Nil
    show False
    proof (cases sep)
      case (Cons d sep')
      with e Nil have "d = 43" by simp
      with p Cons show False by (auto simp: phone_parts_def is_space_def u_def)
    next
      case Nil' : Nil
      from ds obtain d ds' where d: "ds = d # ds'" by (cases ds) simp_all
      with e Nil Nil' have "d = 43" by simp
      with p d show False by (simp add: phone_parts_def is_digit_def)
    qed
  qed
qed

lemma phone_desc:
  assumes i: "i \<le> length s"
  shows "sorted_wrt (\<lambda>x y. fst y \<le> fst x) (ms PHONE_PATTERN noflags s (i, []))"
proof -
  let ?tail = "seqs [phone_code, phone_sep, phone_digits]"
  have e: "ms (seqs [opt (lit CHR ''+''), phone_code, phone_sep, phone_digits]) noflags s (i, []) =
      concat (map (ms ?tail noflags s) (ms (opt (lit CHR ''+'')) noflags s (i, [])))"
    by (rule ms_seqs_Cons)
  have inner: "sorted_wrt (\<lambda>x y. fst y \<le> fst x)
      (ms (seqs [opt (lit CHR ''+''), phone_code, phone_sep, phone_digits]) noflags s (i, []))"
  proof (cases "i < length s \<and> s ! i = 43")
    case True
    have a: "ms (opt (lit CHR ''+'')) noflags s (i, []) = [(Suc i, []), (i, [])]"
      using True by (simp add: lit_def ms_opt_one)
    have "ms (seqs [opt (lit CHR ''+''), phone_code, phone_sep, phone_digits]) noflags s (i, []) =
        ms ?tail noflags s (Suc i, [])"
      unfolding e a using True by (simp add: no_tail_at_plus)
    moreover from True have "Suc i \<le> length s" by simp
    ultimately show ?thesis using desc_tail by simp
  next
    case False
    have a: "ms (opt (lit CHR ''+'')) noflags s (i, []) = [(i, [])]"
      using False by (auto simp: lit_def ms_opt_one)
    have "ms (seqs [opt (lit CHR ''+''), phone_code, phone_sep, phone_digits]) noflags s (i, []) =
        ms ?tail noflags s (i, [])"
      unfolding e a by simp
    with desc_tail [OF i] show ?thesis by simp
  qed
  show ?thesis
    unfolding PHONE_PATTERN_def ms.simps(5) sorted_wrt_map using inner by simp
qed

lemma phone_longest:
  assumes "i \<le> length s" "ms PHONE_PATTERN noflags s (i, []) = (b, c) # rest"
    "(j, c') \<in> set (ms PHONE_PATTERN noflags s (i, []))"
  shows "j \<le> b"
  using phone_desc [OF assms(1)] assms(3) unfolding assms(2) by auto

text \<open>
  A pincode is a run of six digits between word boundaries. A phone span of a text is a
  part of it made of an optional \<open>+\<close>, at most three digits, at most one hyphen or
  whitespace character, and ten digits. The first phone span is the one that starts
  leftmost, and of those that start there the longest.
\<close>

definition pincode_at :: "ustr \<Rightarrow> nat \<Rightarrow> bool" where
  "pincode_at s i =
     (i + 6 \<le> length s \<and> list_all is_digit (slice s i (i + 6)) \<and>
      at_boundary s i \<and> at_boundary s (i + 6))"

definition phone_span :: "ustr \<Rightarrow> nat \<Rightarrow> nat \<Rightarrow> bool" where
  "phone_span s i j =
     (i \<le> j \<and> j \<le> length s \<and>
      (\<exists>pl cc sep ds. slice s i j = pl @ cc @ sep @ ds \<and> phone_parts pl cc sep ds))"

definition first_phone_span :: "ustr \<Rightarrow> nat \<Rightarrow> nat \<Rightarrow> bool" where
  "first_phone_span s i j =
     (phone_span s i j \<and>
      (\<forall>i' j'. phone_span s i' j' \<longrightarrow> i \<le> i' \<and> (i' = i \<longrightarrow> j' \<le> j)))"

lemma phone_spanI:
  "i \<le> j \<Longrightarrow> j \<le> length s \<Longrightarrow> slice s i j = pl @ cc @ sep @ ds \<Longrightarrow>
   phone_parts pl cc sep ds \<Longrightarrow> phone_span s i j"
  unfolding phone_span_def by blast

lemma no_pincode_bounded:
  assumes "list_all (\<lambda>k. \<not> pincode_at s k) [0..<length s]"
  shows "\<forall>k. \<not> pincode_at s k"
proof (intro allI notI)
  fix k
  assume p: "pincode_at s k"
  then have "k < length s" by (simp add: pincode_at_def)
  with assms have "\<not> pincode_at s k" by (simp add: list_all_iff)
  with p show False by blast
qed

lemma pincode_found:
  assumes k: "k \<le> length s" and m: "ms PINCODE_PATTERN noflags s (k, []) \<noteq> []"
  shows "pincode_at s k"
proof -
  let ?six = "Rep 6 (Some 6) True digit"
  from m obtain j c' where "(j, c') \<in> set (ms PINCODE_PATTERN noflags s (k, []))"
    by (cases "ms PINCODE_PATTERN noflags s (k, [])") auto
  then have 1: "(j, c') \<in> set (concat (map (ms (seqs [?six, Wb]) noflags s) (ms Wb noflags s (k, []))))"
    unfolding PINCODE_PATTERN_def ms_seqs_Cons [of Wb "[?six, Wb]"] .
  then have b1: "at_boundary s k" by (cases "at_boundary s k") simp_all
  with 1 have "(j, c') \<in> set (ms (seqs [?six, Wb]) noflags s (k, []))" by simp
  then have "(j, c') \<in> set (concat (map (ms (seqs [Wb]) noflags s) (ms ?six noflags s (k, []))))"
    unfolding ms_seqs_Cons [of ?six "[Wb]"] .
  then obtain x where x: "x \<in> set (ms ?six noflags s (k, []))"
    "(j, c') \<in> set (ms (seqs [Wb]) noflags s x)" by auto
  obtain e c1 where x': "x = (e, c1)" by (cases x)
  from x(2) have b2: "at_boundary s e" unfolding ms_seqs_one x' by (cases "at_boundary s e") simp_all
  note b = ms_bounds [OF k x(1) [unfolded x']]
  from b(3) have w: "list_all is_digit (slice s k e)" "length (slice s k e) = 6"
    by (simp_all add: digit_def lang_rep_one list_all_iff)
  from w(2) b(4) b(1) have e: "e = k + 6" by simp
  with b(2) w(1) b1 b2 show ?thesis by (simp add: pincode_at_def)
qed

lemma no_pincode:
  assumes "\<forall>k. \<not> pincode_at s k"
  shows "without_pincode s = s"
proof -
  have "\<forall>k \<le> length s. ms PINCODE_PATTERN noflags s (k, []) = []"
    using assms pincode_found by blast
  then have "re_search PINCODE_PATTERN noflags s = None" unfolding re_search_None .
  then show ?thesis by (simp add: without_pincode_def)
qed

lemma phone_span_ms:
  "phone_span s i j \<longleftrightarrow> i \<le> length s \<and> (\<exists>c. (j, c) \<in> set (ms PHONE_PATTERN noflags s (i, [])))"
proof
  assume "phone_span s i j"
  then obtain pl cc sep ds where ij: "i \<le> j" "j \<le> length s"
    and w: "slice s i j = pl @ cc @ sep @ ds" and p: "phone_parts pl cc sep ds"
    unfolding phone_span_def by blast
  let ?w = "slice s i j"
  have l: "length ?w = j - i" using ij(2) by (rule length_slice)
  have mem: "?w \<in> lang noflags PHONE_PATTERN" unfolding w by (rule phone_lang_complete [OF p])
  have "\<exists>c'. (i + length ?w, c') \<in> set (ms PHONE_PATTERN noflags s (i, []))"
    by (rule complete_atD [OF ms_complete [OF plain_PHONE] _ _ mem]) (simp_all add: l ij)
  with ij show "i \<le> length s \<and> (\<exists>c. (j, c) \<in> set (ms PHONE_PATTERN noflags s (i, [])))"
    by (simp add: l)
next
  assume "i \<le> length s \<and> (\<exists>c. (j, c) \<in> set (ms PHONE_PATTERN noflags s (i, [])))"
  then obtain c where i: "i \<le> length s" and m: "(j, c) \<in> set (ms PHONE_PATTERN noflags s (i, []))"
    by blast
  note b = ms_bounds [OF i m]
  from phone_lang [OF b(3)] b(1,2) show "phone_span s i j" unfolding phone_span_def by blast
qed

lemma first_phone_span_search:
  assumes "re_search PHONE_PATTERN noflags s = Some (a, b, c)"
  shows "first_phone_span s a b"
proof -
  note h = re_search_Some [OF assms]
  from h(3) obtain rest where hd: "ms PHONE_PATTERN noflags s (a, []) = (b, c) # rest" by blast
  from h(1,2) have a: "a \<le> length s" by simp
  have span: "phone_span s a b" unfolding phone_span_ms using a hd by auto
  have "\<forall>i' j'. phone_span s i' j' \<longrightarrow> a \<le> i' \<and> (i' = a \<longrightarrow> j' \<le> b)"
  proof (intro allI impI)
    fix i' j'
    assume "phone_span s i' j'"
    then obtain c' where i': "i' \<le> length s"
      and m: "(j', c') \<in> set (ms PHONE_PATTERN noflags s (i', []))"
      unfolding phone_span_ms by blast
    have le: "a \<le> i'"
    proof (rule ccontr)
      assume "\<not> a \<le> i'"
      then have "i' < a" by simp
      with h(4) have "ms PHONE_PATTERN noflags s (i', []) = []" by blast
      with m show False by simp
    qed
    moreover have "i' = a \<longrightarrow> j' \<le> b"
    proof
      assume e: "i' = a"
      from phone_longest [OF a hd m [unfolded e]] show "j' \<le> b" .
    qed
    ultimately show "a \<le> i' \<and> (i' = a \<longrightarrow> j' \<le> b)" ..
  qed
  with span show ?thesis unfolding first_phone_span_def ..
qed

lemma no_phone_span:
  assumes "\<forall>i j. \<not> phone_span s i j"
  shows "re_search PHONE_PATTERN noflags s = None"
  unfolding re_search_None
proof (intro allI impI)
  fix k
  assume k: "k \<le> length s"
  show "ms PHONE_PATTERN noflags s (k, []) = []"
  proof (cases "ms PHONE_PATTERN noflags s (k, [])")
    case Nil
    then show ?thesis .
  next
    case (Cons x xs)
    obtain j c where "x = (j, c)" by (cases x)
    with Cons k have "phone_span s k j" unfolding phone_span_ms by auto
    with assms show ?thesis by blast
  qed
qed

lemma phone_span_none:
  assumes "re_search PHONE_PATTERN noflags s = None"
  shows "\<forall>i j. \<not> phone_span s i j"
  using assms unfolding re_search_None phone_span_ms by auto

lemma search_first_phone_span:
  assumes f: "first_phone_span s i j"
  shows "\<exists>c. re_search PHONE_PATTERN noflags s = Some (i, j, c)"
proof -
  from f have span: "phone_span s i j" by (simp add: first_phone_span_def)
  have "re_search PHONE_PATTERN noflags s \<noteq> None"
  proof
    assume "re_search PHONE_PATTERN noflags s = None"
    from phone_span_none [OF this] span show False by blast
  qed
  then obtain a b c where m: "re_search PHONE_PATTERN noflags s = Some (a, b, c)" by auto
  from first_phone_span_search [OF m] have g: "first_phone_span s a b" .
  then have span': "phone_span s a b" by (simp add: first_phone_span_def)
  from f span' have 1: "i \<le> a" "a = i \<longrightarrow> b \<le> j" unfolding first_phone_span_def by blast+
  from g span have 2: "a \<le> i" "i = a \<longrightarrow> j \<le> b" unfolding first_phone_span_def by blast+
  from 1 2 have "a = i" "b = j" by simp_all
  with m show ?thesis by simp
qed

lemma extract_phone_first:
  assumes np: "\<forall>k. \<not> pincode_at text_content k"
    and f: "first_phone_span text_content i j"
    and w: "slice text_content i j = pl @ cc @ sep @ ds"
    and p: "phone_parts pl cc sep ds"
  shows "extract_phone text_content =
     Some (if pl @ cc @ filter kept sep = [] then ds
           else (pl @ cc @ filter kept sep) @ u '' '' @ ds)"
proof -
  note t = no_pincode [OF np]
  from search_first_phone_span [OF f] obtain c where
    m: "re_search PHONE_PATTERN noflags text_content = Some (i, j, c)" by blast
  show ?thesis
    by (rule extract_phone_render [where m = "(i, j, c)"]) (simp_all add: t m group0_def w p)
qed

lemma extract_phone_absent:
  assumes np: "\<forall>k. \<not> pincode_at text_content k"
    and n: "\<forall>i j. \<not> phone_span text_content i j"
  shows "extract_phone text_content = None"
  unfolding extract_phone_def Let_def no_pincode [OF np] no_phone_span [OF n] by simp

text \<open>
  A pincode is deleted from the text before the search, so that its digits are not taken
  for the code of a number that follows it.
\<close>

lemma pincode_deleted_first:
  "extract_phone (u ''400001 9876543210'') = Some (u ''9876543210'')"
  by code_simp

text \<open>
  Claim C2, as the code has it. In a text without a pincode, \<open>extract_phone\<close> takes the
  first phone span. Hyphens, spaces and newlines are removed from the span; the \<open>+\<close>
  and any other whitespace character are kept. When anything is left before the ten
  digits it is rendered, followed by one space and the ten digits, and otherwise the ten
  digits are returned alone. A text without a pincode and without a phone span yields
  nothing. So \<open>+91 9876543210\<close> is returned as it is, sign included, and \<open>9876543210\<close>
  yields \<open>9876543210\<close>.
\<close>

theorem extract_phone_first_span:
  "((\<forall>k. \<not> pincode_at text_content k) \<and> first_phone_span text_content i j \<and>
    slice text_content i j = pl @ cc @ sep @ ds \<and> phone_parts pl cc sep ds \<longrightarrow>
      extract_phone text_content =
        Some (if pl @ cc @ filter kept sep = [] then ds
              else (pl @ cc @ filter kept sep) @ u '' '' @ ds)) \<and>
   ((\<forall>k. \<not> pincode_at text_content k) \<and> (\<forall>i j. \<not> phone_span text_content i j) \<longrightarrow>
      extract_phone text_content = None) \<and>
   extract_phone (u ''+91 9876543210'') = Some (u ''+91 9876543210'') \<and>
   extract_phone (u ''9876543210'') = Some (u ''9876543210'')"
proof (intro conjI impI)
  assume "(\<forall>k. \<not> pincode_at text_content k) \<and> first_phone_span text_content i j \<and>
    slice text_content i j = pl @ cc @ sep @ ds \<and> phone_parts pl cc sep ds"
  then show "extract_phone text_content =
        Some (if pl @ cc @ filter kept sep = [] then ds
              else (pl @ cc @ filter kept sep) @ u '' '' @ ds)"
    using extract_phone_first by blast
next
  assume "(\<forall>k. \<not> pincode_at text_content k) \<and> (\<forall>i j. \<not> phone_span text_content i j)"
  then show "extract_phone text_content = None" using extract_phone_absent by blast
next
  show "extract_phone (u ''+91 9876543210'') = Some (u ''+91 9876543210'')" by code_simp
next
  show "extract_phone (u ''9876543210'') = Some (u ''9876543210'')" by code_simp
qed

text \<open>
  The theorem at three texts. In \<open>tel 91-9876543210 or 9123456780\<close> the first phone span
  is the first number with its code, and the hyphen is removed. In \<open>1234567890123\<close> four
  phone spans start at offset 0, and the longest is taken. The text \<open>no phone here\<close> has
  no phone span.
\<close>

theorem extract_phone_first_span_witness:
  "(\<forall>k. \<not> pincode_at (u ''tel 91-9876543210 or 9123456780'') k) \<and>
   first_phone_span (u ''tel 91-9876543210 or 9123456780'') 4 17 \<and>
   slice (u ''tel 91-9876543210 or 9123456780'') 4 17 = [] @ u ''91'' @ u ''-'' @ u ''9876543210'' \<and>
   phone_parts [] (u ''91'') (u ''-'') (u ''9876543210'') \<and>
   extract_phone (u ''tel 91-9876543210 or 9123456780'') = Some (u ''91 9876543210'') \<and>
   (\<forall>k. \<not> pincode_at (u ''1234567890123'') k) \<and>
   first_phone_span (u ''1234567890123'') 0 13 \<and>
   phone_span (u ''1234567890123'') 0 10 \<and>
   slice (u ''1234567890123'') 0 13 = [] @ u ''123'' @ [] @ u ''4567890123'' \<and>
   phone_parts [] (u ''123'') [] (u ''4567890123'') \<and>
   extract_phone (u ''1234567890123'') = Some (u ''123 4567890123'') \<and>
   (\<forall>k. \<not> pincode_at (u ''no phone here'') k) \<and>
   (\<forall>i j. \<not> phone_span (u ''no phone here'') i j) \<and>
   extract_phone (u ''no phone here'') = None"
proof -
  let ?a = "u ''tel 91-9876543210 or 9123456780''"
  let ?b = "u ''1234567890123''"
  let ?c = "u ''no phone here''"
  have a1: "\<forall>k. \<not> pincode_at ?a k" by (rule no_pincode_bounded) code_simp
  have "re_search PHONE_PATTERN noflags ?a = Some (4, 17, [(1, 4, 17)])" by code_simp
  then have a2: "first_phone_span ?a 4 17" by (rule first_phone_span_search)
  have a3: "slice ?a 4 17 = [] @ u ''91'' @ u ''-'' @ u ''9876543210''" by code_simp
  have a4: "phone_parts [] (u ''91'') (u ''-'') (u ''9876543210'')"
    by (simp add: phone_parts_def u_def is_digit_def)
  from extract_phone_first_span [of ?a 4 17 "[]" "u ''91''" "u ''-''" "u ''9876543210''"] a1 a2 a3 a4
  have "extract_phone ?a =
      Some (if [] @ u ''91'' @ filter kept (u ''-'') = [] then u ''9876543210''
            else ([] @ u ''91'' @ filter kept (u ''-'')) @ u '' '' @ u ''9876543210'')"
    by blast
  then have a5: "extract_phone ?a = Some (u ''91 9876543210'')" by (simp add: u_def kept_def)
  have b1: "\<forall>k. \<not> pincode_at ?b k" by (rule no_pincode_bounded) code_simp
  have "re_search PHONE_PATTERN noflags ?b = Some (0, 13, [(1, 0, 13)])" by code_simp
  then have b2: "first_phone_span ?b 0 13" by (rule first_phone_span_search)
  have b3: "slice ?b 0 13 = [] @ u ''123'' @ [] @ u ''4567890123''" by code_simp
  have b4: "phone_parts [] (u ''123'') [] (u ''4567890123'')"
    by (simp add: phone_parts_def u_def is_digit_def)
  have b6: "slice ?b 0 10 = [] @ [] @ [] @ u ''1234567890''" by code_simp
  have b7: "phone_parts [] [] [] (u ''1234567890'')"
    by (simp add: phone_parts_def u_def is_digit_def)
  have b0: "phone_span ?b 0 10" by (rule phone_spanI [OF _ _ b6 b7]) (simp_all add: u_def)
  from extract_phone_first_span [of ?b 0 13 "[]" "u ''123''" "[]" "u ''4567890123''"] b1 b2 b3 b4
  have "extract_phone ?b =
      Some (if [] @ u ''123'' @ filter kept [] = [] then u ''4567890123''
            else ([] @ u ''123'' @ filter kept []) @ u '' '' @ u ''4567890123'')"
    by blast
  then have b5: "extract_phone ?b = Some (u ''123 4567890123'')" by (simp add: u_def)
  have c1: "\<forall>k. \<not> pincode_at ?c k" by (rule no_pincode_bounded) code_simp
  have "re_search PHONE_PATTERN noflags ?c = None" by code_simp
  then have c2: "\<forall>i j. \<not> phone_span ?c i j" by (rule phone_span_none)
  from extract_phone_first_span [of ?c] c1 c2 have c3: "extract_phone ?c = None" by blast
  from a1 a2 a3 a4 a5 b1 b2 b0 b3 b4 b5 c1 c2 c3 show ?thesis by blast
qed

text \<open>
  The claim's own example fails: the sign is part of the matched span and is not removed,
  so \<open>+91 9876543210\<close> does not yield \<open>91 9876543210\<close>. Nor is every whitespace
  character removed: a tab between code and number stays.
\<close>

theorem extract_phone_keeps_plus:
  "extract_phone (u ''+91 9876543210'') \<noteq> Some (u ''91 9876543210'') \<and>
   extract_phone (u ''91'' @ [9] @ u ''9876543210'') = Some (u ''91'' @ [9] @ u '' 9876543210'')"
proof -
  have e: "extract_phone (u ''+91 9876543210'') = Some (u ''+91 9876543210'')" by code_simp
  have t: "extract_phone (u ''91'' @ [9] @ u ''9876543210'') =
      Some (u ''91'' @ [9] @ u '' 9876543210'')" by code_simp
  show ?thesis unfolding e t by (simp add: u_def)
qed

section \<open>Experience durations\<close>

definition is_number :: "ustr \<Rightarrow> bool" where
  "is_number w =
     (\<exists>ip fp. w = ip @ fp \<and> ip \<noteq> [] \<and> list_all is_digit ip \<and>
        (fp = [] \<or> (\<exists>fd. fp = u ''.'' @ fd \<and> fd \<noteq> [] \<and> list_all is_digit fd)))"

definition is_unit :: "ustr \<Rightarrow> bool" where
  "is_unit w =
     (w \<in> set [u ''years'', u ''Years'', u ''year'', u ''Year'',
                u ''months'', u ''Months'', u ''month'', u ''Month''])"

definition is_duration_tail :: "ustr \<Rightarrow> bool" where
  "is_duration_tail w =
     (\<exists>ws1 pl ws2 un. w = ws1 @ pl @ ws2 @ un \<and> list_all is_space ws1 \<and>
        (pl = [] \<or> pl = u ''+'') \<and> list_all is_space ws2 \<and> is_unit un)"

definition duration_at :: "ustr \<Rightarrow> nat \<Rightarrow> ustr \<Rightarrow> ustr \<Rightarrow> bool" where
  "duration_at text i num tail =
     (is_number num \<and> is_duration_tail tail \<and>
      (\<exists>pre post. text = pre @ (num @ tail) @ post \<and> length pre = i))"

definition NUMBER :: regex where
  "NUMBER = seqs [plus digit, opt (seqs [lit CHR ''.'', plus digit])]"

definition DURATION_TAIL :: regex where
  "DURATION_TAIL = seqs
     [star space,
      opt (lit CHR ''+''),
      star space,
      alts [seqs [One (Cls False [chr CHR ''y'', chr CHR ''Y'']), str ''ears''],
            seqs [One (Cls False [chr CHR ''y'', chr CHR ''Y'']), str ''ear''],
            seqs [One (Cls False [chr CHR ''m'', chr CHR ''M'']), str ''onth'', opt (lit CHR ''s'')]]]"

lemma EXPERIENCE_DURATION_PATTERN_eq:
  "EXPERIENCE_DURATION_PATTERN = Seq (Grp 1 NUMBER) DURATION_TAIL"
  by (simp add: EXPERIENCE_DURATION_PATTERN_def NUMBER_def DURATION_TAIL_def seqs_def)

lemma lang_digits_plus: "lang noflags (plus digit) = {w. w \<noteq> [] \<and> list_all is_digit w}"
proof -
  have "\<And>w::ustr. (Suc 0 \<le> length w) = (w \<noteq> [])" by (simp add: Suc_le_eq)
  then show ?thesis
    unfolding plus_def digit_def lang_rep_one by (auto simp: noflags_def list_all_iff)
qed

lemma lang_spaces: "lang noflags (star space) = {w. list_all is_space w}"
  unfolding star_def space_def lang_rep_one by (auto simp: noflags_def list_all_iff)

lemma lang_fraction:
  "lang noflags (seqs [lit CHR ''.'', plus digit]) = {u ''.'' @ fd | fd. fd \<noteq> [] \<and> list_all is_digit fd}"
  by (auto simp: lang_digits_plus u_def)

lemma lang_NUMBER: "lang noflags NUMBER = {w. is_number w}"
proof (intro set_eqI iffI)
  fix w assume "w \<in> lang noflags NUMBER"
  then obtain ip w1 where 1: "w = ip @ w1" "ip \<in> lang noflags (plus digit)"
    "w1 \<in> lang noflags (seqs [opt (seqs [lit CHR ''.'', plus digit])])"
    unfolding NUMBER_def by (rule lang_seqs_ConsE)
  from 1(3) obtain fp w2 where 2: "w1 = fp @ w2"
    "fp \<in> lang noflags (opt (seqs [lit CHR ''.'', plus digit]))" "w2 \<in> lang noflags (seqs [])"
    by (rule lang_seqs_ConsE)
  from 2(3) have w2: "w2 = []" by simp
  from 1(2) have ip: "ip \<noteq> []" "list_all is_digit ip" by (simp_all add: lang_digits_plus)
  from 2(2) have fp: "fp = [] \<or> (\<exists>fd. fp = u ''.'' @ fd \<and> fd \<noteq> [] \<and> list_all is_digit fd)"
    unfolding lang_opt lang_fraction by blast
  have "w = ip @ fp" using 1(1) 2(1) w2 by simp
  with ip fp have "is_number w" unfolding is_number_def by blast
  then show "w \<in> {w. is_number w}" by simp
next
  fix w assume "w \<in> {w. is_number w}"
  then obtain ip fp where w: "w = ip @ fp" "ip \<noteq> []" "list_all is_digit ip"
    "fp = [] \<or> (\<exists>fd. fp = u ''.'' @ fd \<and> fd \<noteq> [] \<and> list_all is_digit fd)"
    unfolding is_number_def by blast
  have ip: "ip \<in> lang noflags (plus digit)" using w(2,3) by (simp add: lang_digits_plus)
  have fp: "fp \<in> lang noflags (opt (seqs [lit CHR ''.'', plus digit]))"
    using w(4) unfolding lang_opt lang_fraction by (auto simp: u_def)
  have "fp @ [] \<in> lang noflags (seqs [opt (seqs [lit CHR ''.'', plus digit])])"
    by (rule lang_seqs_ConsI [OF fp]) simp
  from lang_seqs_ConsI [OF ip this] show "w \<in> lang noflags NUMBER"
    unfolding NUMBER_def w(1) by simp
qed

lemma lang_seqs_cls:
  "lang noflags (seqs (One (Cls False as) # rs)) =
     {c # w | c w. list_ex (\<lambda>a. atom_has a c) as \<and> w \<in> lang noflags (seqs rs)}"
proof (intro set_eqI iffI)
  fix x assume "x \<in> lang noflags (seqs (One (Cls False as) # rs))"
  then obtain v w where "x = v @ w" "v \<in> lang noflags (One (Cls False as))"
    "w \<in> lang noflags (seqs rs)" by (rule lang_seqs_ConsE)
  then show "x \<in> {c # w | c w. list_ex (\<lambda>a. atom_has a c) as \<and> w \<in> lang noflags (seqs rs)}"
    by auto
next
  fix x assume "x \<in> {c # w | c w. list_ex (\<lambda>a. atom_has a c) as \<and> w \<in> lang noflags (seqs rs)}"
  then obtain c w where x: "x = [c] @ w" "list_ex (\<lambda>a. atom_has a c) as" "w \<in> lang noflags (seqs rs)"
    by auto
  have "[c] \<in> lang noflags (One (Cls False as))" using x(2) by simp
  from lang_seqs_ConsI [OF this x(3)] show "x \<in> lang noflags (seqs (One (Cls False as) # rs))"
    unfolding x(1) .
qed

lemma lang_seqs_str:
  "lang noflags (seqs (str s # rs)) = {u s @ w | w. w \<in> lang noflags (seqs rs)}"
  by auto

lemma lang_opt_s: "lang noflags (seqs [opt (lit CHR ''s'')]) = {[], u ''s''}"
  by (auto simp: lang_opt u_def)

lemma lang_years:
  "lang noflags (seqs [One (Cls False [chr CHR ''y'', chr CHR ''Y'']), str ''ears'']) =
     {u ''years'', u ''Years''}"
  unfolding lang_seqs_cls lang_seqs_str lang_seqs_Nil by (auto simp: chr_def u_def)

lemma lang_year:
  "lang noflags (seqs [One (Cls False [chr CHR ''y'', chr CHR ''Y'']), str ''ear'']) =
     {u ''year'', u ''Year''}"
  unfolding lang_seqs_cls lang_seqs_str lang_seqs_Nil by (auto simp: chr_def u_def)

lemma lang_months:
  "lang noflags (seqs [One (Cls False [chr CHR ''m'', chr CHR ''M'']), str ''onth'', opt (lit CHR ''s'')]) =
     {u ''months'', u ''Months'', u ''month'', u ''Month''}"
  unfolding lang_seqs_cls lang_seqs_str lang_opt_s by (auto simp: chr_def u_def)

lemma lang_units:
  "lang noflags (alts
     [seqs [One (Cls False [chr CHR ''y'', chr CHR ''Y'']), str ''ears''],
      seqs [One (Cls False [chr CHR ''y'', chr CHR ''Y'']), str ''ear''],
      seqs [One (Cls False [chr CHR ''m'', chr CHR ''M'']), str ''onth'', opt (lit CHR ''s'')]]) =
   {w. is_unit w}"
  unfolding alts.simps lang.simps lang_years lang_year lang_months
  by (auto simp: is_unit_def)

lemma lang_DURATION_TAIL: "lang noflags DURATION_TAIL = {w. is_duration_tail w}"
proof (intro set_eqI iffI)
  fix w assume "w \<in> lang noflags DURATION_TAIL"
  then obtain ws1 w1 where 1: "w = ws1 @ w1" "ws1 \<in> lang noflags (star space)"
    "w1 \<in> lang noflags (seqs [opt (lit CHR ''+''), star space, alts
     [seqs [One (Cls False [chr CHR ''y'', chr CHR ''Y'']), str ''ears''],
      seqs [One (Cls False [chr CHR ''y'', chr CHR ''Y'']), str ''ear''],
      seqs [One (Cls False [chr CHR ''m'', chr CHR ''M'']), str ''onth'', opt (lit CHR ''s'')]]])"
    unfolding DURATION_TAIL_def by (rule lang_seqs_ConsE)
  from 1(3) obtain pl w2 where 2: "w1 = pl @ w2" "pl \<in> lang noflags (opt (lit CHR ''+''))"
    "w2 \<in> lang noflags (seqs [star space, alts
     [seqs [One (Cls False [chr CHR ''y'', chr CHR ''Y'']), str ''ears''],
      seqs [One (Cls False [chr CHR ''y'', chr CHR ''Y'']), str ''ear''],
      seqs [One (Cls False [chr CHR ''m'', chr CHR ''M'']), str ''onth'', opt (lit CHR ''s'')]]])"
    by (rule lang_seqs_ConsE)
  from 2(3) obtain ws2 w3 where 3: "w2 = ws2 @ w3" "ws2 \<in> lang noflags (star space)"
    "w3 \<in> lang noflags (seqs [alts
     [seqs [One (Cls False [chr CHR ''y'', chr CHR ''Y'']), str ''ears''],
      seqs [One (Cls False [chr CHR ''y'', chr CHR ''Y'']), str ''ear''],
      seqs [One (Cls False [chr CHR ''m'', chr CHR ''M'']), str ''onth'', opt (lit CHR ''s'')]]])"
    by (rule lang_seqs_ConsE)
  from 3(3) obtain un w4 where 4: "w3 = un @ w4" "un \<in> lang noflags (alts
     [seqs [One (Cls False [chr CHR ''y'', chr CHR ''Y'']), str ''ears''],
      seqs [One (Cls False [chr CHR ''y'', chr CHR ''Y'']), str ''ear''],
      seqs [One (Cls False [chr CHR ''m'', chr CHR ''M'']), str ''onth'', opt (lit CHR ''s'')]])"
    "w4 \<in> lang noflags (seqs [])"
    by (rule lang_seqs_ConsE)
  from 4(3) have w4: "w4 = []" by simp
  have "w = ws1 @ pl @ ws2 @ un" using 1(1) 2(1) 3(1) 4(1) w4 by simp
  moreover have "list_all is_space ws1" "list_all is_space ws2"
    using 1(2) 3(2) by (simp_all add: lang_spaces)
  moreover have "pl = [] \<or> pl = u ''+''" using 2(2) by (auto simp: lang_opt u_def)
  moreover have "is_unit un" using 4(2) unfolding lang_units by simp
  ultimately have "is_duration_tail w" unfolding is_duration_tail_def by blast
  then show "w \<in> {w. is_duration_tail w}" by simp
next
  fix w assume "w \<in> {w. is_duration_tail w}"
  then obtain ws1 pl ws2 un where w: "w = ws1 @ pl @ ws2 @ un" "list_all is_space ws1"
    "pl = [] \<or> pl = u ''+''" "list_all is_space ws2" "is_unit un"
    unfolding is_duration_tail_def by blast
  have a: "ws1 \<in> lang noflags (star space)" "ws2 \<in> lang noflags (star space)"
    using w(2,4) by (simp_all add: lang_spaces)
  have b: "pl \<in> lang noflags (opt (lit CHR ''+''))" using w(3) by (auto simp: lang_opt u_def)
  have c: "un \<in> lang noflags (alts
     [seqs [One (Cls False [chr CHR ''y'', chr CHR ''Y'']), str ''ears''],
      seqs [One (Cls False [chr CHR ''y'', chr CHR ''Y'']), str ''ear''],
      seqs [One (Cls False [chr CHR ''m'', chr CHR ''M'']), str ''onth'', opt (lit CHR ''s'')]])"
    using w(5) unfolding lang_units by simp
  have "un @ [] \<in> lang noflags (seqs [alts
     [seqs [One (Cls False [chr CHR ''y'', chr CHR ''Y'']), str ''ears''],
      seqs [One (Cls False [chr CHR ''y'', chr CHR ''Y'']), str ''ear''],
      seqs [One (Cls False [chr CHR ''m'', chr CHR ''M'']), str ''onth'', opt (lit CHR ''s'')]]])"
    by (rule lang_seqs_ConsI [OF c]) simp
  from lang_seqs_ConsI [OF a(1) lang_seqs_ConsI [OF b lang_seqs_ConsI [OF a(2) this]]]
  show "w \<in> lang noflags DURATION_TAIL" unfolding DURATION_TAIL_def w(1) by simp
qed

lemma nogroups_DURATION_TAIL: "nogroups DURATION_TAIL"
  by (simp add: DURATION_TAIL_def seqs_def star_def opt_def space_def lit_def str_def lits_def u_def)

lemma plain_EXPERIENCE_DURATION_PATTERN: "plain EXPERIENCE_DURATION_PATTERN"
  by (simp add: EXPERIENCE_DURATION_PATTERN_def seqs_def star_def opt_def plus_def space_def
      digit_def lit_def str_def lits_def u_def)

lemma lang_EXPERIENCE_DURATION_PATTERN:
  "lang noflags EXPERIENCE_DURATION_PATTERN =
     {num @ tail | num tail. is_number num \<and> is_duration_tail tail}"
  unfolding EXPERIENCE_DURATION_PATTERN_eq by (simp add: lang_NUMBER lang_DURATION_TAIL)

lemma duration_match_parts:
  assumes "re_search EXPERIENCE_DURATION_PATTERN noflags s = Some m"
  shows "\<exists>num tail. is_number num \<and> is_duration_tail tail \<and> group_of s m 1 = num \<and>
     group0 s m = num @ tail \<and> fst m \<le> fst (snd m) \<and> fst (snd m) \<le> length s"
proof -
  obtain a b c where m: "m = (a, b, c)" by (cases m)
  note h = re_search_Some [OF assms [unfolded m]]
  have a: "a \<le> length s" using h(1,2) by simp
  from h(3) obtain rest where "ms EXPERIENCE_DURATION_PATTERN noflags s (a, []) = (b, c) # rest"
    by blast
  then have "(b, c) \<in> set (ms EXPERIENCE_DURATION_PATTERN noflags s (a, []))" by simp
  then have "(b, c) \<in> set (ms (Seq (Grp 1 NUMBER) DURATION_TAIL) noflags s (a, []))"
    unfolding EXPERIENCE_DURATION_PATTERN_eq .
  from ms_Seq_mem [OF this] obtain k c1 where
    k: "(k, c1) \<in> set (ms (Grp 1 NUMBER) noflags s (a, []))"
    "(b, c) \<in> set (ms DURATION_TAIL noflags s (k, c1))" by blast
  from ms_Grp_mem [OF k(1)] obtain c0 where c0: "c1 = (1, a, k) # c0"
    "(k, c0) \<in> set (ms NUMBER noflags s (a, []))" by blast
  from ms_nogroups [OF nogroups_DURATION_TAIL k(2)] have c: "c = c1" .
  note n = sound_atD [OF ms_sound a c0(2)]
  note t = sound_atD [OF ms_sound n(2) k(2)]
  have "is_number (slice s a k)" using n(3) by (simp add: lang_NUMBER)
  moreover have "is_duration_tail (slice s k b)" using t(3) by (simp add: lang_DURATION_TAIL)
  moreover have "group_of s m 1 = slice s a k"
    by (simp add: group_of_def group_def m c c0(1))
  moreover have "group0 s m = slice s a k @ slice s k b"
    using slice_append [OF n(1) t(1), of s] by (simp add: group0_def m)
  moreover have "fst m \<le> fst (snd m)" "fst (snd m) \<le> length s" using h(1,2) by (simp_all add: m)
  ultimately show ?thesis by blast
qed

lemma duration_at_matches:
  assumes "duration_at s i num tail"
  shows "i \<le> length s" "ms EXPERIENCE_DURATION_PATTERN noflags s (i, []) \<noteq> []"
proof -
  from assms obtain pre post where s: "s = pre @ (num @ tail) @ post" "length pre = i"
    and nt: "is_number num" "is_duration_tail tail"
    unfolding duration_at_def by blast
  show "i \<le> length s" using s by simp
  have w: "num @ tail \<in> lang noflags EXPERIENCE_DURATION_PATTERN"
    unfolding lang_EXPERIENCE_DURATION_PATTERN using nt by blast
  have "\<exists>c'. (length pre + length (num @ tail), c') \<in>
      set (ms EXPERIENCE_DURATION_PATTERN noflags (pre @ (num @ tail) @ post) (length pre, []))"
    by (rule complete_atD [OF ms_complete [OF plain_EXPERIENCE_DURATION_PATTERN] _ slice_middle w])
      simp
  then show "ms EXPERIENCE_DURATION_PATTERN noflags s (i, []) \<noteq> []"
    unfolding s(1) [symmetric] s(2) by auto
qed

definition has_duration :: "ustr \<Rightarrow> bool" where
  "has_duration text = (\<exists>i num tail. duration_at text i num tail)"

definition newlines_to_spaces :: "ustr \<Rightarrow> ustr" where
  "newlines_to_spaces s = map (\<lambda>c. if c = 10 then 32 else c) s"

lemma no_duration_default:
  assumes "\<not> has_duration text"
  shows "extract_experience_duration text = (0, u ''0'')"
proof (cases "re_search EXPERIENCE_DURATION_PATTERN noflags text")
  case None
  then show ?thesis by (simp add: extract_experience_duration_def)
next
  case (Some m)
  from duration_match_parts [OF Some] obtain num tail where
    p: "is_number num" "is_duration_tail tail" "group0 text m = num @ tail"
      "fst m \<le> fst (snd m)" "fst (snd m) \<le> length text" by blast
  have "text = take (fst m) text @ (num @ tail) @ drop (fst (snd m)) text"
    using slice_in_context [OF p(4,5)] p(3) by (simp add: group0_def)
  moreover have "length (take (fst m) text) = fst m" using p(4,5) by simp
  ultimately have "duration_at text (fst m) num tail"
    unfolding duration_at_def using p(1,2) by blast
  with assms show ?thesis unfolding has_duration_def by blast
qed

lemma first_duration:
  assumes "has_duration text"
  shows "\<exists>i num tail. duration_at text i num tail \<and>
     (\<forall>k num' tail'. duration_at text k num' tail' \<longrightarrow> i \<le> k) \<and>
     extract_experience_duration text = (float_of num, newlines_to_spaces (num @ tail))"
proof (cases "re_search EXPERIENCE_DURATION_PATTERN noflags text")
  case None
  from assms obtain i num tail where d: "duration_at text i num tail"
    unfolding has_duration_def by blast
  from None duration_at_matches [OF d] show ?thesis unfolding re_search_None by blast
next
  case (Some m)
  obtain a b c where m: "m = (a, b, c)" by (cases m)
  from duration_match_parts [OF Some] obtain num tail where
    p: "is_number num" "is_duration_tail tail" "group_of text m 1 = num" "group0 text m = num @ tail"
      "fst m \<le> fst (snd m)" "fst (snd m) \<le> length text" by blast
  have "text = take (fst m) text @ (num @ tail) @ drop (fst (snd m)) text"
    using slice_in_context [OF p(5,6)] p(4) by (simp add: group0_def)
  moreover have "length (take (fst m) text) = fst m" using p(5,6) by simp
  ultimately have d: "duration_at text a num tail"
    unfolding duration_at_def using p(1,2) m by auto
  have least: "a \<le> k" if "duration_at text k num' tail'" for k num' tail'
  proof (rule ccontr)
    assume "\<not> a \<le> k"
    then have "k < a" by simp
    with re_search_Some(4) [OF Some [unfolded m]]
    have "ms EXPERIENCE_DURATION_PATTERN noflags text (k, []) = []" by blast
    with duration_at_matches(2) [OF that] show False by simp
  qed
  have "extract_experience_duration text = (float_of num, newlines_to_spaces (num @ tail))"
    unfolding extract_experience_duration_def Some option.case Let_def p(3) p(4)
    by (simp add: u_def py_replace_char newlines_to_spaces_def)
  with d least show ?thesis by blast
qed

text \<open>
  Claim C7, as the code has it. A duration is a number (digits, optionally a point and
  more digits), then whitespace, an optional \<open>+\<close>, whitespace, and one of the words
  \<open>year\<close>, \<open>years\<close>, \<open>month\<close>, \<open>months\<close> with the first letter in either case and
  the other letters in lower case. When the text holds a duration,
  \<open>extract_experience_duration\<close> returns, for a duration at the least start offset, the
  value of its number and its characters with every newline replaced by a space; when the
  text holds none, it returns \<open>(0, "0")\<close>.
\<close>

theorem extract_experience_duration_first:
  "(has_duration text \<longrightarrow>
      (\<exists>i num tail. duration_at text i num tail \<and>
         (\<forall>k num' tail'. duration_at text k num' tail' \<longrightarrow> i \<le> k) \<and>
         extract_experience_duration text = (float_of num, newlines_to_spaces (num @ tail)))) \<and>
   (\<not> has_duration text \<longrightarrow> extract_experience_duration text = (0, u ''0''))"
  using first_duration no_duration_default by blast

lemma duration_at_example: "duration_at (u ''5 years'') 0 (u ''5'') (u '' years'')"
proof -
  have "is_number (u ''5'')"
    unfolding is_number_def
    by (intro exI [of _ "u ''5''"] exI [of _ "[]"]) (simp add: u_def is_digit_def)
  moreover have "is_duration_tail (u '' years'')"
    unfolding is_duration_tail_def
    by (intro exI [of _ "u '' ''"] exI [of _ "[]"] exI [of _ "u ''years''"])
      (simp add: u_def is_space_def is_unit_def)
  moreover have "u ''5 years'' = [] @ (u ''5'' @ u '' years'') @ [] \<and> length ([] :: ustr) = 0"
    by (simp add: u_def)
  ultimately show ?thesis unfolding duration_at_def by blast
qed

text \<open>
  The theorem at the text \<open>5 years\<close>, which holds a duration at offset 0: the result is
  the value 5 with the string \<open>5 years\<close>.
\<close>

theorem extract_experience_duration_first_witness:
  "has_duration (u ''5 years'') \<and>
   (\<exists>i num tail. duration_at (u ''5 years'') i num tail \<and>
      (\<forall>k num' tail'. duration_at (u ''5 years'') k num' tail' \<longrightarrow> i \<le> k) \<and>
      extract_experience_duration (u ''5 years'') = (float_of num, newlines_to_spaces (num @ tail))) \<and>
   extract_experience_duration (u ''5 years'') = (5, u ''5 years'')"
proof -
  have h: "has_duration (u ''5 years'')"
    unfolding has_duration_def using duration_at_example by blast
  have e: "extract_experience_duration (u ''5 years'') = (5, u ''5 years'')" by code_simp
  from extract_experience_duration_first [of "u ''5 years''"] h e show ?thesis by blast
qed

text \<open>
  The unit word is not matched case-insensitively: \<open>YEARS\<close> is \<open>years\<close> up to case, and
  the text \<open>5 YEARS\<close> yields the default pair.
\<close>

theorem extract_experience_duration_upper_case:
  "extract_experience_duration (u ''5 YEARS'') = (0, u ''0'') \<and>
   map lower (u ''YEARS'') = u ''years''"
  by code_simp

section \<open>More string methods\<close>

text \<open>
  \<open>s.split("\n")\<close>, \<open>"\n".join(ls)\<close> and \<open>str.title()\<close>, the last on the letters of ASCII.
\<close>

fun py_split_nl :: "ustr \<Rightarrow> ustr list" where
  "py_split_nl [] = [[]]"
| "py_split_nl (c # cs) =
     (if c = 10 then [] # py_split_nl cs
      else (case py_split_nl cs of [] \<Rightarrow> [[c]] | l # ls \<Rightarrow> (c # l) # ls))"

fun py_join_nl :: "ustr list \<Rightarrow> ustr" where
  "py_join_nl [] = []"
| "py_join_nl [l] = l"
| "py_join_nl (l # ls) = l @ [10] @ py_join_nl ls"

fun title_from :: "bool \<Rightarrow> ustr \<Rightarrow> ustr" where
  "title_from previous_is_cased [] = []"
| "title_from previous_is_cased (c # cs) =
     (if is_lower c then (if previous_is_cased then c else upper c) # title_from True cs
      else if is_upper c then (if previous_is_cased then lower c else c) # title_from True cs
      else c # title_from False cs)"

definition py_title :: "ustr \<Rightarrow> ustr" where
  "py_title s = title_from False s"

definition or_empty :: "ustr option \<Rightarrow> ustr" where
  "or_empty x = (case x of None \<Rightarrow> [] | Some s \<Rightarrow> s)"

section \<open>The escape decoder\<close>

text \<open>
  \<open>codecs.decode(s, "unicode-escape")\<close> on a \<open>str\<close>: the string is encoded as UTF-8 and the
  bytes are decoded, each byte that is not part of an escape sequence standing for the
  character of its value. A backslash before a character that starts no escape sequence
  stays; a truncated \<open>\x\<close>, \<open>\u\<close> or \<open>\U\<close> sequence and a lone backslash at the end raise
  \<open>UnicodeDecodeError\<close>. The named escape \<open>\N{...}\<close> depends on the table of character
  names and is represented as raising in every case.
\<close>

definition utf8_char :: "int \<Rightarrow> error + int list" where
  "utf8_char c =
     (if c < 128 then Inr [c]
      else if c < 2048 then Inr [192 + c div 64, 128 + c mod 64]
      else if c < 65536 then
        (if 55296 \<le> c \<and> c \<le> 57343 then Inl UnicodeEncodeError
         else Inr [224 + c div 4096, 128 + (c div 64) mod 64, 128 + c mod 64])
      else Inr [240 + c div 262144, 128 + (c div 4096) mod 64, 128 + (c div 64) mod 64,
                128 + c mod 64])"

fun utf8_encode :: "ustr \<Rightarrow> error + int list" where
  "utf8_encode [] = Inr []"
| "utf8_encode (c # cs) =
     (case utf8_char c of
        Inl e \<Rightarrow> Inl e
      | Inr bs \<Rightarrow> (case utf8_encode cs of Inl e \<Rightarrow> Inl e | Inr rest \<Rightarrow> Inr (bs @ rest)))"

definition is_octal :: "int \<Rightarrow> bool" where
  "is_octal c = (48 \<le> c \<and> c \<le> 55)"

definition is_hex :: "int \<Rightarrow> bool" where
  "is_hex c = (is_digit c \<or> (65 \<le> c \<and> c \<le> 70) \<or> (97 \<le> c \<and> c \<le> 102))"

definition hex_digit :: "int \<Rightarrow> int" where
  "hex_digit c = (if is_digit c then c - 48 else if c \<le> 70 then c - 55 else c - 87)"

definition hex_value :: "int list \<Rightarrow> int" where
  "hex_value ds = foldl (\<lambda>a d. 16 * a + hex_digit d) 0 ds"

definition octal_value :: "int list \<Rightarrow> int" where
  "octal_value ds = foldl (\<lambda>a d. 8 * a + (d - 48)) 0 ds"

definition simple_escape :: "int \<Rightarrow> int option" where
  "simple_escape e =
     (if e = 92 \<or> e = 39 \<or> e = 34 then Some e
      else if e = of_char CHR ''b'' then Some 8
      else if e = of_char CHR ''f'' then Some 12
      else if e = of_char CHR ''t'' then Some 9
      else if e = of_char CHR ''n'' then Some 10
      else if e = of_char CHR ''r'' then Some 13
      else if e = of_char CHR ''v'' then Some 11
      else if e = of_char CHR ''a'' then Some 7
      else None)"

definition hex_width :: "int \<Rightarrow> nat option" where
  "hex_width e =
     (if e = of_char CHR ''x'' then Some 2
      else if e = of_char CHR ''u'' then Some 4
      else if e = of_char CHR ''U'' then Some 8
      else None)"

function unicode_escape_decode :: "int list \<Rightarrow> error + ustr" where
  "unicode_escape_decode [] = Inr []"
| "unicode_escape_decode [c] = (if c = 92 then Inl UnicodeDecodeError else Inr [c])"
| "unicode_escape_decode (c # e # rest) =
     (if c \<noteq> 92 then map_sum id ((#) c) (unicode_escape_decode (e # rest))
      else if e = 10 then unicode_escape_decode rest
      else if simple_escape e \<noteq> None
        then map_sum id ((#) (the (simple_escape e))) (unicode_escape_decode rest)
      else if is_octal e
        then (let ds = takeWhile is_octal (take 3 (e # rest))
              in map_sum id ((#) (octal_value ds))
                   (unicode_escape_decode (drop (length ds) (e # rest))))
      else if hex_width e \<noteq> None
        then (let n = the (hex_width e); ds = takeWhile is_hex (take n rest)
              in if length ds < n \<or> 1114111 < hex_value ds then Inl UnicodeDecodeError
                 else map_sum id ((#) (hex_value ds)) (unicode_escape_decode (drop n rest)))
      else if e = of_char CHR ''N'' then Inl UnicodeDecodeError
      else map_sum id ((#) 92) (unicode_escape_decode (e # rest)))"
  by pat_completeness auto
termination
  by (relation "measure length") auto

declare unicode_escape_decode.simps [simp del]

definition codecs_decode :: "ustr \<Rightarrow> error + ustr" where
  "codecs_decode s = (case utf8_encode s of Inl e \<Rightarrow> Inl e | Inr bs \<Rightarrow> unicode_escape_decode bs)"

section \<open>Section patterns\<close>

text \<open>
  The remaining patterns of main\_config.py. The alternatives of the headers and of the
  terminators are kept in the order of the source text, which decides the match.
\<close>

definition alpha :: regex where
  "alpha = One (Cls False [rng CHR ''A'' CHR ''Z'', rng CHR ''a'' CHR ''z''])"

definition newline :: regex where
  "newline = One (Lit 10)"

definition LINK_PATTERN :: regex where
  "LINK_PATTERN = seqs [star (One Dot), str ''.com'', star (One Dot), opt newline]"

definition NAME_PATTERN :: regex where
  "NAME_PATTERN = seqs
     [Bol,
      seqs [lazy_star (One Dot),
            opt (seqs [str ''Name:'', star space]),
            opt (alts [str ''Mrs.'', str ''Mr.'', str ''Miss'', str ''Ms.'']),
            star space,
            Grp 1 (plus alpha),
            star space,
            Grp 2 (seqs [plus alpha, star (seqs [lit CHR '' '', plus alpha])])],
      opt newline]"

definition EXPERIENCE_HEADERS :: "regex list" where
  "EXPERIENCE_HEADERS =
    [
      str ''EXPERIENCE'',
      str ''Experience'',
      str ''Projects Undertaken:'',
      str ''PROJECTS UNDERTAKEN'',
      str ''Projects:'',
      str ''PROJECTS'',
      str ''PROJECTS:'',
      str ''Work Experience:'',
      str ''EMPLOYMENT HISTORY'',
      str ''Projects'',
      str ''Project Details:'',
      str ''WORK EXPERIENCE :'',
      str ''Projects :'',
      str ''EXPERIENCE:'',
      str ''Project'',
      str ''Employment History'',
      str ''PR O F E S SI O NA L   E X P E R I E N C E'',
      str ''Work experience'',
      seqs [str ''PROFESSIONAL EXPERIENCE '', One Dot],
      str ''P R O J E C T S'',
      str ''JOBS'',
      str ''W O R K E X P E R I E N C E'',
      str ''Work History'',
      str ''PROJECT'']"

definition EXPERIENCE_TERMINATORS :: "regex list" where
  "EXPERIENCE_TERMINATORS =
    [
      str ''SKILLS'',
      str ''Skills'',
      str ''Professional Skills'',
      str ''Personal Qualities:'',
      str ''PERSONAL QUALITIES:'',
      str ''Personal Qualities'',
      str ''PERSONAL QUALITIES'',
      str ''Education'',
      str ''EDUCATION'',
      str ''EXTRACURRICULAR ACTIVITIES'',
      str ''Languages'',
      str ''Certification'',
      str ''CERTIFICATE'',
      str ''Additional Information:'',
      str ''ACHIEVEMENTS'',
      str ''E D U C A TI O N'',
      str ''Interests'',
      str ''TECHNICAL SKILLS'',
      str ''SKILLS:'',
      str ''TRAINING'',
      str ''P R O J E C T S'',
      str ''S K I L L S'',
      str ''STRENGTHS'',
      Eol]"

definition SUMMARY_HEADERS :: "regex list" where
  "SUMMARY_HEADERS =
    [
      seqs [Wb, str ''Summary''],
      str ''ABOUT'',
      str ''PROFILE'',
      str ''SUMMARY'',
      str ''INTRODUCTION'',
      str ''HEADLINE'',
      str ''PROFESSIONAL SUMMARY'',
      str ''About Me'',
      str ''PROFESSIONAL SUMMARY:'',
      str ''Synopsis'',
      seqs [str ''Pro'', One (Lit 64257), str ''le Summary:''],
      str ''Profile Summary:'',
      str ''My Projects'',
      str ''Summary'',
      str ''SUMMARY'',
      str ''Summary:'',
      str ''CAREER OBJECTIVE :'',
      str ''Objectives :'',
      str ''Projects:'',
      str ''Objectives'',
      str ''Objective'',
      str ''Profile'',
      str ''SUMMARY OF EXPERIENCE'',
      str ''OBJECTIVE'',
      str ''CAREER SUMMARY:'',
      str ''ABOUT ME'',
      str ''Objective:'',
      str ''P R O F E S S I O N A L   S U M M A R Y'',
      str ''CAREER OBJECTIVE:'',
      str ''P R O F I L E'',
      str ''Profile Summary & Skills'',
      str ''CAREER OBJECTIVE'']"

definition SUMMARY_TERMINATORS :: "regex list" where
  "SUMMARY_TERMINATORS =
    [
      str ''CAREER OBJECTIVE'',
      str ''OBJECTIVE'',
      str ''GOAL'',
      str ''Education'',
      str ''EXPERIENCE SUMMARY'',
      str ''Current Company Details'',
      str ''Projects Undertaken'',
      str ''Experience'',
      str ''Skills'',
      str ''Contact'',
      str ''Technical Skills'',
      str ''Technical Expertise:'',
      str ''Professional Qualification'',
      str ''EMPLOYMENT HISTORY'',
      str ''Completed'',
      str ''EDUCATION'',
      str ''Projects'',
      str ''SKILLS'',
      str ''Languages'',
      str ''Current'',
      str ''PROFESSIONAL'',
      str ''WORK EXPERIENCE'',
      str ''PROFESSIONAL EXPERIENCE'',
      str ''T E C H N I C A L   S K I L L S'',
      str ''C O N T A C T M E'',
      str ''Work Experience'',
      str ''E D U C A T I O N'',
      str ''Professional Experience'',
      str ''Skills & Abilities'',
      str ''QUALIFICATION DETAILS'',
      Eol]"

definition EXPERIENCE_TEXT_PATTERN :: regex where
  "EXPERIENCE_TEXT_PATTERN = seqs
     [Grp 1 (alts EXPERIENCE_HEADERS),
      newline,
      Grp 2 (lazy_star (One (Cls False [chr CHR ''{'', chr CHR ''L'', chr CHR ''}'', Spc, NSpc]))),
      Ahead (seqs [newline, alts EXPERIENCE_TERMINATORS])]"

definition SUMMARY_PATTERN :: regex where
  "SUMMARY_PATTERN = seqs
     [Grp 1 (alts SUMMARY_HEADERS),
      opt newline,
      Grp 2 (lazy_star (One (Cls False [Spc, NSpc]))),
      Ahead (seqs [newline, alts SUMMARY_TERMINATORS, Wb])]"

definition dotall_flags :: flags where
  "dotall_flags = \<lparr>ignorecase = False, dotall = True\<rparr>"

section \<open>Long-form sections (main\_config.py)\<close>

text \<open>
  \<open>extract_summary_text\<close> and \<open>extract_experience_text\<close>. The summary is the only place where
  an extractor can raise: the decoder is applied to text taken from the document.
\<close>

definition mask_contacts :: "ustr \<Rightarrow> ustr option \<Rightarrow> ustr option \<Rightarrow> ustr" where
  "mask_contacts text_content email phone =
     (case (email, phone) of
        (Some e, Some p) \<Rightarrow>
          py_replace (py_replace text_content p (u ''<phone no. masked>'')) e (u ''<email masked>'')
      | (Some e, None) \<Rightarrow> py_replace text_content e (u ''<email masked>'')
      | (None, Some p) \<Rightarrow> py_replace text_content p (u ''<phone no. masked>'')
      | (None, None) \<Rightarrow> text_content)"

definition mask_links :: "ustr \<Rightarrow> ustr" where
  "mask_links text_content =
     foldl (\<lambda>t link. py_replace t link (u ''<link masked>'')) text_content
       (map (group0 text_content) (re_finditer LINK_PATTERN noflags text_content))"

definition nonempty :: "ustr option \<Rightarrow> ustr option" where
  "nonempty x = (case x of None \<Rightarrow> None | Some s \<Rightarrow> (if s = [] then None else Some s))"

definition extract_summary_text :: "ustr \<Rightarrow> error + ustr option" where
  "extract_summary_text text_content =
     (let email = extract_email text_content;
          phone = extract_phone text_content;
          text_content = mask_links text_content;
          text_content = mask_contacts text_content (nonempty email) (nonempty phone);
          stripped = py_strip text_content;
          summary = (case re_search SUMMARY_PATTERN dotall_flags stripped of
                       Some m \<Rightarrow> Some (py_strip (group_of stripped m 2))
                     | None \<Rightarrow> None)
      in case nonempty summary of
           None \<Rightarrow> Inr None
         | Some s \<Rightarrow>
             (case codecs_decode s of
                Inl e \<Rightarrow> Inl e
              | Inr summary \<Rightarrow>
                  (if summary = [] then Inr None
                   else Inr (Some (py_replace (py_replace summary [34, 92, 34] []) [92, 34, 34] [])))))"

definition extract_experience_text :: "ustr \<Rightarrow> ustr option" where
  "extract_experience_text text_content =
     (let email = extract_email text_content;
          phone = extract_phone text_content;
          text_content = mask_contacts text_content (nonempty email) (nonempty phone)
      in case re_search EXPERIENCE_TEXT_PATTERN noflags text_content of
           Some m \<Rightarrow> Some (py_strip (group_of text_content m 2))
         | None \<Rightarrow> None)"

section \<open>Name resolution (main.py, extract\_name)\<close>

text \<open>
  The name is searched in the text from which the matched designations, the e-mail
  address, the phone number and some fixed words have been removed. The character 8211 is
  the dash that the source removes together with each designation.
\<close>

definition strip_lines :: "ustr \<Rightarrow> ustr" where
  "strip_lines s = py_join_nl (map py_strip (py_split_nl s))"

definition clean_designation :: "ustr option \<Rightarrow> ustr \<Rightarrow> ustr \<Rightarrow> ustr" where
  "clean_designation email cleaned_text item =
     (let cleaned_text = py_strip (py_replace (py_replace cleaned_text item []) [8211] []);
          cleaned_text =
            (case nonempty email of
               Some e \<Rightarrow> py_strip (py_replace (py_replace cleaned_text e []) (u '':'') [])
             | None \<Rightarrow> cleaned_text)
      in strip_lines cleaned_text)"

definition LINKEDIN_PATTERN :: regex where
  "LINKEDIN_PATTERN = seqs [Wb, str ''LinkedIn'', Wb]"

definition VERCEL_PATTERN :: regex where
  "VERCEL_PATTERN = seqs [Wb, plus (One (Cls False [Wrd])), str ''.vercel.app'', Wb]"

definition name_decision :: "ustr \<Rightarrow> match option \<Rightarrow> ustr \<times> ustr" where
  "name_decision cleaned_text found =
     (case found of
        None \<Rightarrow> ([], [])
      | Some m \<Rightarrow>
          (let g1 = group_of cleaned_text m 1; g2 = group_of cleaned_text m 2
           in if g1 \<noteq> [] \<and> g2 \<noteq> [] \<and> 2 < length (py_strip g1) \<and> length (py_strip g1) < 50 \<and>
                 2 < length (py_strip g2)
              then (py_strip g1, if 10 \<notin> set g2 then py_strip g2 else [])
              else if g1 \<noteq> [] \<and> length (py_strip g2) \<le> 2
              then (py_strip g1 @ (if g2 \<noteq> [] \<and> length (py_strip g2) \<le> 2 then py_strip g2 else []),
                    [])
              else ([], [])))"

definition extract_name :: "ustr \<Rightarrow> json list option \<Rightarrow> error + (ustr \<times> ustr)" where
  "extract_name text_content json_data =
     (case check_and_collect_designation_ids text_content json_data of
        Inl e \<Rightarrow> Inl e
      | Inr (designations, _) \<Rightarrow>
          (let email = extract_email text_content;
               cleaned_text = foldl (clean_designation email) text_content designations;
               cleaned_text = re_sub LINKEDIN_PATTERN icase [] cleaned_text;
               cleaned_text = re_sub VERCEL_PATTERN icase [] cleaned_text;
               cleaned_text = py_replace (py_replace cleaned_text (u ''|'') (u '' '')) (u ''Resume'') [];
               phone = extract_phone cleaned_text;
               cleaned_text =
                 (case nonempty phone of
                    Some p \<Rightarrow> py_strip (py_replace (py_replace cleaned_text p []) (u ''+'') [])
                  | None \<Rightarrow> cleaned_text)
           in Inr (name_decision cleaned_text (re_search NAME_PATTERN noflags cleaned_text))))"

section \<open>Cleaning of long-form fields (main.py, remove\_unrecognized\_characters)\<close>

definition NON_ASCII :: regex where
  "NON_ASCII = plus (One (Cls True [Rng 0 127]))"

definition remove_unrecognized_characters :: "ustr option \<Rightarrow> ustr option" where
  "remove_unrecognized_characters text =
     (case nonempty text of
        None \<Rightarrow> None
      | Some t \<Rightarrow> Some (py_strip (py_replace (re_sub NON_ASCII noflags (u '' '') t) [10] (u '' ''))))"

section \<open>Record assembly (main.py, check\_titles\_and\_extract\_info)\<close>

text \<open>
  The record that is written for a document, and its one experience entry. The function
  is given the path of the text file and reads it; here it is given what the file holds.
  \<open>sorted(set(skills))\<close> raises \<open>TypeError\<close> when \<open>skills\<close> is \<open>None\<close>.
\<close>

record experience_entry =
  title :: ustr
  amount_of_experience :: rat
  duration_string :: ustr
  summary :: ustr

record extracted_info =
  name :: ustr
  email :: ustr
  phone :: ustr
  skills :: "ustr list"
  designation :: "ustr list"
  experience :: "experience_entry list"
  work_experience :: ustr

definition sorted_set :: "ustr list option \<Rightarrow> error + ustr list" where
  "sorted_set xs = (case xs of None \<Rightarrow> Inl TypeError | Some ts \<Rightarrow> Inr (sort (remdups ts)))"

definition check_titles_and_extract_info ::
    "ustr \<Rightarrow> json list option \<Rightarrow> json list option \<Rightarrow> error + extracted_info" where
  "check_titles_and_extract_info file_content json_skills json_designations =
     (case extract_name file_content json_designations of
        Inl e \<Rightarrow> Inl e
      | Inr (firstName, lastName) \<Rightarrow>
     (let name' = py_replace (py_strip (firstName @ u '' '' @ lastName)) [10] (u '' '');
          email' = extract_email file_content;
          phone' = extract_phone file_content
      in case extract_summary_text file_content of
        Inl e \<Rightarrow> Inl e
      | Inr summary' \<Rightarrow>
     (let duration = extract_experience_duration file_content;
          amount_of_experience' = fst duration;
          duration_string' = snd duration
      in case check_and_collect_skills file_content json_skills of
        Inl e \<Rightarrow> Inl e
      | Inr skills' \<Rightarrow>
     (case check_and_collect_designation_ids file_content json_designations of
        Inl e \<Rightarrow> Inl e
      | Inr (designations, designation_title) \<Rightarrow>
     (let work_experience' = extract_experience_text file_content
      in case sorted_set skills' of
        Inl e \<Rightarrow> Inl e
      | Inr sorted_skills \<Rightarrow>
          Inr \<lparr>name = py_title name',
               email = or_empty email',
               phone = or_empty phone',
               skills = sorted_skills,
               designation = designations,
               experience =
                 [\<lparr>title = designation_title,
                   amount_of_experience = amount_of_experience',
                   duration_string = or_empty (remove_unrecognized_characters (Some duration_string')),
                   summary = or_empty (remove_unrecognized_characters summary')\<rparr>],
               work_experience = or_empty (remove_unrecognized_characters work_experience')\<rparr>)))))"

section \<open>Absent reference lists\<close>

text \<open>
  Claim C10. With an absent or an empty skill list, \<open>check_and_collect_skills\<close> returns
  \<open>None\<close> and does not raise. With an absent designation list,
  \<open>check_and_collect_designation_ids\<close> raises \<open>TypeError\<close> (it iterates \<open>None\<close>), and
  so does \<open>extract_name\<close>, which calls it first.
\<close>

theorem absent_lists_asymmetry:
  "check_and_collect_skills text_content None = Inr None \<and>
   check_and_collect_skills text_content (Some []) = Inr None \<and>
   check_and_collect_designation_ids text_content None = Inl TypeError \<and>
   extract_name text_content None = Inl TypeError"
  by (simp add: check_and_collect_skills_def check_and_collect_designation_ids_def extract_name_def)

section \<open>Skills in the record\<close>

lemma collect_titles_has_str:
  "collect_titles key s items = Inr ts \<Longrightarrow> list_all (has_str key) items"
proof (induction items arbitrary: ts)
  case Nil
  then show ?case by simp
next
  case (Cons item items)
  from Cons.prems obtain v where v: "getitem item key = Inr v"
    by (auto split: sum.splits)
  with Cons.prems obtain found where f: "title_found v s = Inr found"
    by (auto split: sum.splits)
  then obtain t where "v = JStr t" by (auto simp: title_found_def split: json.splits)
  with v have h: "has_str key item" by (simp add: has_str_def)
  from Cons.prems v f obtain ts' where "collect_titles key s items = Inr ts'"
    by (auto split: sum.splits)
  from Cons.IH [OF this] h show ?case by simp
qed

lemma check_titles_skills:
  assumes "check_titles_and_extract_info file_content json_skills json_designations = Inr r"
  shows "\<exists>ts. check_and_collect_skills file_content json_skills = Inr (Some ts) \<and>
     skills r = sort (remdups ts)"
  using assms
  by (auto simp: check_titles_and_extract_info_def Let_def sorted_set_def
      split: sum.splits prod.splits option.splits)

text \<open>
  Claim C4, as the code has it. The skills field of the record holds the skill titles
  that occur in the text as a whole word, case-insensitively, without duplicates and in
  ascending lexicographic order. Titles that differ only in case are different strings and
  are all kept: the list \<open>[React, react, Node]\<close> against a text with \<open>React\<close> and
  \<open>Node\<close> yields \<open>[Node, React, react]\<close>.
\<close>

theorem skills_field:
  assumes "check_titles_and_extract_info file_content (Some items) json_designations = Inr r"
  shows "skills r = sort (remdups (filter (occurs file_content) (map (str_at (u ''title'')) items))) \<and>
     sorted (skills r) \<and> distinct (skills r) \<and>
     set (skills r) = {t. t \<in> set (map (str_at (u ''title'')) items) \<and> occurs file_content t}"
proof -
  from check_titles_skills [OF assms] obtain ts where
    ts: "check_and_collect_skills file_content (Some items) = Inr (Some ts)"
      "skills r = sort (remdups ts)" by blast
  from ts(1) have c: "collect_titles (u ''title'') file_content items = Inr ts"
    by (auto simp: check_and_collect_skills_def split: list.splits sum.splits)
  from collect_titles_ok [OF collect_titles_has_str [OF c]] c
  have "ts = filter (occurs file_content) (map (str_at (u ''title'')) items)" by simp
  with ts(2) show ?thesis by auto
qed

definition react_node_skills :: "json list" where
  "react_node_skills =
     [JObj [(u ''title'', JStr (u ''React''))],
      JObj [(u ''title'', JStr (u ''react''))],
      JObj [(u ''title'', JStr (u ''Node''))]]"

definition engineer_designations :: "json list" where
  "engineer_designations = [JObj [(u ''designation'', JStr (u ''Engineer''))]]"

lemma react_node_record:
  "check_titles_and_extract_info (u ''I use React and Node'') (Some react_node_skills)
     (Some engineer_designations) =
   Inr \<lparr>name = [], email = [], phone = [],
        skills = [u ''Node'', u ''React'', u ''react''],
        designation = [],
        experience = [\<lparr>title = [], amount_of_experience = 0, duration_string = u ''0'',
                       summary = []\<rparr>],
        work_experience = []\<rparr>"
  by code_simp

text \<open>
  The theorem at the list \<open>[React, react, Node]\<close> and the text \<open>I use React and Node\<close>.
\<close>

theorem skills_field_witness:
  "(\<exists>r. check_titles_and_extract_info (u ''I use React and Node'') (Some react_node_skills)
        (Some engineer_designations) = Inr r \<and>
      skills r = [u ''Node'', u ''React'', u ''react''] \<and>
      skills r = sort (remdups (filter (occurs (u ''I use React and Node''))
                   (map (str_at (u ''title'')) react_node_skills))))"
proof -
  note e = react_node_record
  from skills_field [OF e] e show ?thesis by simp
qed

text \<open>
  The claim's example fails: \<open>react\<close> matches the text as well and is a string of its own,
  so the stored list has three entries, not the two of the claim.
\<close>

theorem skills_field_keeps_case_variants:
  "map_sum id skills
     (check_titles_and_extract_info (u ''I use React and Node'') (Some react_node_skills)
        (Some engineer_designations)) = Inr [u ''Node'', u ''React'', u ''react''] \<and>
   [u ''Node'', u ''React'', u ''react''] \<noteq> [u ''Node'', u ''React'']"
  unfolding react_node_record by (simp add: u_def)

section \<open>Greedy repetition of a single-character class\<close>

definition run :: "flags \<Rightarrow> item \<Rightarrow> ustr \<Rightarrow> nat \<Rightarrow> nat" where
  "run fl x s i = length (takeWhile (item_ok fl x) (drop i s))"

lemma run_0: "run fl x s i = 0 \<longleftrightarrow> \<not> (i < length s \<and> item_ok fl x (s ! i))"
proof (cases "i < length s")
  case False
  then show ?thesis by (simp add: run_def)
next
  case True
  then have "drop i s = s ! i # drop (Suc i) s" by (simp add: Cons_nth_drop_Suc)
  then show ?thesis using True by (simp add: run_def)
qed

lemma run_Suc: "i < length s \<Longrightarrow> item_ok fl x (s ! i) \<Longrightarrow> run fl x s i = Suc (run fl x s (Suc i))"
proof -
  assume a: "i < length s" "item_ok fl x (s ! i)"
  then have "drop i s = s ! i # drop (Suc i) s" by (simp add: Cons_nth_drop_Suc)
  with a(2) show ?thesis by (simp add: run_def)
qed

lemma run_le: "i \<le> length s \<Longrightarrow> run fl x s i \<le> length s - i"
  unfolding run_def using length_takeWhile_le [of "item_ok fl x" "drop i s"] by simp

lemma rep_greedy_first:
  assumes f: "\<And>i c. f (i, c) = (if i < length s \<and> item_ok fl x (s ! i) then [(Suc i, c)] else [])"
  shows "lo \<le> run fl x s i \<Longrightarrow> run fl x s i \<le> n \<Longrightarrow>
     \<exists>rest. rep n f lo None True (i, c) = (i + run fl x s i, c) # rest"
proof (induction n arbitrary: i lo)
  case 0
  then have "run fl x s i = 0" "lo = 0" by simp_all
  then show ?case by simp
next
  case (Suc n)
  show ?case
  proof (cases "i < length s \<and> item_ok fl x (s ! i)")
    case False
    then have r: "run fl x s i = 0" by (simp add: run_0)
    with Suc.prems have "lo = 0" by simp
    moreover from False have "f (i, c) = []" unfolding f by simp
    ultimately show ?thesis using r by (simp add: Let_def)
  next
    case True
    then have r: "run fl x s i = Suc (run fl x s (Suc i))" by (simp add: run_Suc)
    have "lo - 1 \<le> run fl x s (Suc i)" "run fl x s (Suc i) \<le> n" using Suc.prems r by simp_all
    from Suc.IH [OF this] obtain rest where
      "rep n f (lo - 1) None True (Suc i, c) = (Suc i + run fl x s (Suc i), c) # rest"
      by blast
    with True r show ?thesis by (simp add: Let_def f)
  qed
qed

lemma rep_none:
  assumes f: "f (i, c) = []" and lo: "0 < lo"
  shows "rep n f lo hi g (i, c) = []"
  using assms by (cases n) (simp_all add: Let_def)

lemma ms_plus_one_first:
  assumes "i \<le> length s" "0 < run fl x s i"
  shows "\<exists>rest. ms (plus (One x)) fl s (i, c) = (i + run fl x s i, c) # rest"
proof -
  have one: "1 \<le> run fl x s i" using assms(2) by simp
  have "\<exists>rest. rep (length s - i) (ms (One x) fl s) 1 None True (i, c) =
      (i + run fl x s i, c) # rest"
    by (rule rep_greedy_first [OF _ one run_le [OF assms(1)]]) simp
  then show ?thesis by (simp add: plus_def)
qed

lemma ms_plus_one_none:
  assumes "run fl x s i = 0"
  shows "ms (plus (One x)) fl s (i, c) = []"
proof -
  from assms have e: "ms (One x) fl s (i, c) = []" by (simp add: run_0)
  have "rep (length s - i) (ms (One x) fl s) 1 None True (i, c) = []"
    by (rule rep_none [where f = "ms (One x) fl s", OF e]) simp
  then show ?thesis by (simp add: plus_def)
qed

section \<open>Runs of characters outside ASCII\<close>

definition is_ascii :: "int \<Rightarrow> bool" where
  "is_ascii c = (0 \<le> c \<and> c \<le> 127)"

function squash :: "ustr \<Rightarrow> ustr" where
  "squash [] = []"
| "squash (c # cs) =
     (if is_ascii c then c # squash cs
      else 32 # squash (dropWhile (\<lambda>c. \<not> is_ascii c) cs))"
  by pat_completeness auto
termination
  by (relation "measure length") (auto simp: length_dropWhile_le less_Suc_eq_le)

lemma non_ascii_item: "item_ok noflags (Cls True [Rng 0 127]) c = (\<not> is_ascii c)"
  by (simp add: is_ascii_def)

lemma squash_ascii: "list_all is_ascii xs \<Longrightarrow> squash (xs @ ys) = xs @ squash ys"
  by (induction xs) simp_all

lemma attempt_NON_ASCII:
  assumes "i \<le> length s"
  shows "attempt NON_ASCII noflags s i adv =
     (if run noflags (Cls True [Rng 0 127]) s i = 0 then None
      else Some (i + run noflags (Cls True [Rng 0 127]) s i, []))"
proof (cases "run noflags (Cls True [Rng 0 127]) s i = 0")
  case True
  then show ?thesis by (simp add: attempt_def NON_ASCII_def ms_plus_one_none)
next
  case False
  then have p: "0 < run noflags (Cls True [Rng 0 127]) s i" by simp
  from ms_plus_one_first [OF assms p] obtain rest where
    "ms NON_ASCII noflags s (i, []) = (i + run noflags (Cls True [Rng 0 127]) s i, []) # rest"
    unfolding NON_ASCII_def by blast
  with p False show ?thesis by (simp add: attempt_def)
qed

definition non_ascii_run :: "ustr \<Rightarrow> nat \<Rightarrow> nat" where
  "non_ascii_run s i = length (takeWhile (\<lambda>c. \<not> is_ascii c) (drop i s))"

lemma run_non_ascii: "run noflags (Cls True [Rng 0 127]) s i = non_ascii_run s i"
proof -
  have "item_ok noflags (Cls True [Rng 0 127]) = (\<lambda>c. \<not> is_ascii c)"
    by (rule ext) (rule non_ascii_item)
  then show ?thesis by (simp add: run_def non_ascii_run_def)
qed

definition first_non_ascii :: "ustr \<Rightarrow> nat \<Rightarrow> nat" where
  "first_non_ascii s i = i + length (takeWhile is_ascii (drop i s))"

lemma first_non_ascii_here:
  "i < length s \<Longrightarrow> \<not> is_ascii (s ! i) \<Longrightarrow> first_non_ascii s i = i"
  by (simp add: first_non_ascii_def Cons_nth_drop_Suc [symmetric])

lemma first_non_ascii_next:
  "i < length s \<Longrightarrow> is_ascii (s ! i) \<Longrightarrow> first_non_ascii s i = first_non_ascii s (Suc i)"
  by (simp add: first_non_ascii_def Cons_nth_drop_Suc [symmetric])

lemma first_non_ascii_end: "length s \<le> i \<Longrightarrow> first_non_ascii s i = i"
  by (simp add: first_non_ascii_def)

lemma non_ascii_run_0:
  "non_ascii_run s i = 0 \<longleftrightarrow> \<not> (i < length s \<and> \<not> is_ascii (s ! i))"
  using run_0 [of noflags "Cls True [Rng 0 127]" s i] unfolding run_non_ascii non_ascii_item .

lemma scan_NON_ASCII:
  "i \<le> length s \<Longrightarrow> n = Suc (length s) - i \<Longrightarrow>
   scan n NON_ASCII noflags s i adv =
     (if first_non_ascii s i < length s
      then Some (first_non_ascii s i,
                 first_non_ascii s i + non_ascii_run s (first_non_ascii s i), [])
      else None)"
proof (induction n arbitrary: i adv)
  case 0
  then show ?case by simp
next
  case (Suc n)
  note att = attempt_NON_ASCII [OF Suc.prems(1), of adv, unfolded run_non_ascii]
  show ?case
  proof (cases "i < length s \<and> \<not> is_ascii (s ! i)")
    case True
    then have "non_ascii_run s i \<noteq> 0" unfolding non_ascii_run_0 by simp
    with att True show ?thesis by (simp add: first_non_ascii_here)
  next
    case False
    then have r0: "non_ascii_run s i = 0" unfolding non_ascii_run_0 by simp
    with att have none: "attempt NON_ASCII noflags s i adv = None" by simp
    show ?thesis
    proof (cases "i < length s")
      case True
      with False have asc: "is_ascii (s ! i)" by simp
      have "scan n NON_ASCII noflags s (Suc i) False =
        (if first_non_ascii s (Suc i) < length s
         then Some (first_non_ascii s (Suc i),
                    first_non_ascii s (Suc i) + non_ascii_run s (first_non_ascii s (Suc i)), [])
         else None)"
        by (rule Suc.IH) (use True Suc.prems in simp_all)
      then show ?thesis
        using none by (simp add: first_non_ascii_next [OF True asc])
    next
      case False
      with Suc.prems have "n = 0" "first_non_ascii s i = i" by (simp_all add: first_non_ascii_end)
      with none False show ?thesis by simp
    qed
  qed
qed

lemma search_NON_ASCII:
  "pos \<le> length s \<Longrightarrow>
   search_from NON_ASCII noflags s pos adv =
     (if first_non_ascii s pos < length s
      then Some (first_non_ascii s pos,
                 first_non_ascii s pos + non_ascii_run s (first_non_ascii s pos), [])
      else None)"
  unfolding search_from_def by (rule scan_NON_ASCII) simp_all

lemma squash_all_ascii: "list_all is_ascii xs \<Longrightarrow> squash xs = xs"
  using squash_ascii [of xs "[]"] by simp

lemma rebuild_squash:
  "pos \<le> length s \<Longrightarrow>
   rebuild s (u '' '') pos (finditer_from NON_ASCII noflags s pos adv) = squash (drop pos s)"
proof (induction NON_ASCII noflags s pos adv rule: finditer_from.induct)
  case (1 s pos adv)
  let ?j = "first_non_ascii s pos"
  let ?tw = "takeWhile is_ascii (drop pos s)"
  have tw: "list_all is_ascii ?tw" by (simp add: list_all_iff) (meson set_takeWhileD)
  have split: "drop pos s = ?tw @ drop ?j s"
  proof -
    have "drop pos s = ?tw @ dropWhile is_ascii (drop pos s)" by simp
    also have "dropWhile is_ascii (drop pos s) = drop (length ?tw) (drop pos s)"
      by (rule dropWhile_eq_drop)
    also have "\<dots> = drop ?j s" by (simp add: first_non_ascii_def add.commute)
    finally show ?thesis .
  qed
  show ?case
  proof (cases "?j < length s")
    case False
    then have none: "search_from NON_ASCII noflags s pos adv = None"
      using search_NON_ASCII [OF "1.prems", of adv] by simp
    from False have "drop ?j s = []" by simp
    with split have "drop pos s = ?tw" by simp
    then have "squash (drop pos s) = drop pos s" using tw squash_all_ascii by metis
    with none show ?thesis by (simp add: finditer_from.simps [of _ _ s pos adv])
  next
    case True
    let ?b = "?j + non_ascii_run s ?j"
    have some: "search_from NON_ASCII noflags s pos adv = Some (?j, ?b, [])"
      using search_NON_ASCII [OF "1.prems", of adv] True by simp
    note h = search_from_Some [OF some]
    have na: "\<not> is_ascii (s ! ?j)"
    proof
      assume "is_ascii (s ! ?j)"
      moreover have "drop pos s ! length ?tw = s ! ?j"
        using True by (simp add: first_non_ascii_def)
      moreover have "length ?tw < length (drop pos s)"
        using True by (simp add: first_non_ascii_def)
      ultimately show False using nth_length_takeWhile [of is_ascii "drop pos s"] by simp
    qed
    have dj: "drop ?j s = s ! ?j # drop (Suc ?j) s" using True by (simp add: Cons_nth_drop_Suc)
    have runj: "non_ascii_run s ?j = Suc (non_ascii_run s (Suc ?j))"
      unfolding non_ascii_run_def dj using na by simp
    have "dropWhile (\<lambda>c. \<not> is_ascii c) (drop (Suc ?j) s) =
        drop (non_ascii_run s (Suc ?j)) (drop (Suc ?j) s)"
      unfolding non_ascii_run_def by (rule dropWhile_eq_drop)
    also have "\<dots> = drop ?b s" by (simp add: runj add.commute)
    finally have dw: "dropWhile (\<lambda>c. \<not> is_ascii c) (drop (Suc ?j) s) = drop ?b s" .
    have sq: "squash (drop pos s) = ?tw @ u '' '' @ squash (drop ?b s)"
    proof -
      have "squash (drop pos s) = squash (?tw @ drop ?j s)" using split by simp
      also have "\<dots> = ?tw @ squash (drop ?j s)" by (rule squash_ascii [OF tw])
      also have "squash (drop ?j s) = 32 # squash (drop ?b s)"
        unfolding dj using na by (simp add: dw)
      finally show ?thesis by (simp add: u_def)
    qed
    have sl: "slice s pos ?j = ?tw"
    proof -
      have "slice s pos ?j = take (length ?tw) (drop pos s)"
        by (simp add: slice_def first_non_ascii_def)
      also have "\<dots> = ?tw" by (rule takeWhile_eq_take [symmetric])
      finally show ?thesis .
    qed
    have ih: "rebuild s (u '' '') ?b (finditer_from NON_ASCII noflags s ?b (?j = ?b)) =
        squash (drop ?b s)"
      using "1.hyps" [OF some] h(3) by simp
    have fi: "finditer_from NON_ASCII noflags s pos adv =
        (?j, ?b, []) # finditer_from NON_ASCII noflags s ?b (?j = ?b)"
      unfolding finditer_from.simps [of _ _ s pos adv] some by simp
    show ?thesis unfolding fi rebuild.simps fst_conv snd_conv sl ih sq ..
  qed
qed

section \<open>Cleaned fields\<close>

lemma re_sub_NON_ASCII: "re_sub NON_ASCII noflags (u '' '') s = squash s"
  using rebuild_squash [of 0 s False] by (simp add: re_sub_def re_finditer_def)

lemma remove_unrecognized_characters_eq:
  "remove_unrecognized_characters (Some t) =
     (if t = [] then None else Some (py_strip (newlines_to_spaces (squash t))))"
  unfolding remove_unrecognized_characters_def nonempty_def re_sub_NON_ASCII
  by (simp add: newlines_to_spaces_def py_replace_char u_def)

text \<open>
  A string is trimmed when it neither starts nor ends with a whitespace character, and
  \<open>r\<close> is the trimming of \<open>s\<close> when it is trimmed and \<open>s\<close> is \<open>r\<close> between two runs of
  whitespace characters. A field is clean when it is ASCII, has no newline and is trimmed.
\<close>

definition trimmed :: "ustr \<Rightarrow> bool" where
  "trimmed s = (s = [] \<or> (\<not> is_space (hd s) \<and> \<not> is_space (last s)))"

definition trimming :: "ustr \<Rightarrow> ustr \<Rightarrow> bool" where
  "trimming s r =
     (trimmed r \<and> (\<exists>a b. s = a @ r @ b \<and> list_all is_space a \<and> list_all is_space b))"

definition clean :: "ustr \<Rightarrow> bool" where
  "clean s = (list_all is_ascii s \<and> 10 \<notin> set s \<and> trimmed s)"

lemma squash_is_ascii: "list_all is_ascii (squash s)"
  by (induction s rule: squash.induct) (simp_all add: is_ascii_def)

lemma newlines_to_spaces_ascii: "list_all is_ascii s \<Longrightarrow> list_all is_ascii (newlines_to_spaces s)"
  by (induction s) (simp_all add: newlines_to_spaces_def is_ascii_def)

lemma newlines_to_spaces_none: "10 \<notin> set (newlines_to_spaces s)"
  by (induction s) (simp_all add: newlines_to_spaces_def)

lemma py_strip_trimming: "trimming s (py_strip s)"
proof -
  let ?a = "takeWhile is_space s"
  let ?d = "dropWhile is_space s"
  let ?b = "rev (takeWhile is_space (rev ?d))"
  let ?r = "rev (dropWhile is_space (rev ?d))"
  have r: "py_strip s = ?r" by (simp add: py_strip_def)
  have "rev ?d = takeWhile is_space (rev ?d) @ dropWhile is_space (rev ?d)" by simp
  then have "rev (rev ?d) = rev (takeWhile is_space (rev ?d) @ dropWhile is_space (rev ?d))"
    by (rule arg_cong)
  then have d: "?d = ?r @ ?b" by (simp only: rev_rev_ident rev_append)
  have s: "s = ?a @ ?r @ ?b" using d by (metis takeWhile_dropWhile_id)
  have a: "list_all is_space ?a" by (simp add: list_all_iff) (meson set_takeWhileD)
  have b: "list_all is_space ?b" by (simp add: list_all_iff) (meson set_takeWhileD)
  have t: "trimmed ?r"
  proof (cases "?r = []")
    case True
    then show ?thesis by (simp add: trimmed_def)
  next
    case False
    then have ne: "dropWhile is_space (rev ?d) \<noteq> []" by simp
    have "?d \<noteq> []"
    proof
      assume "?d = []"
      then have "?r = []" by (simp only: rev.simps dropWhile.simps)
      with False show False ..
    qed
    then have "\<not> is_space (hd ?d)" by (rule hd_dropWhile)
    moreover have "hd ?d = hd ?r" using d False by (metis hd_append2)
    ultimately have 1: "\<not> is_space (hd ?r)" by simp
    have "last ?r = hd (dropWhile is_space (rev ?d))" using ne by (simp add: last_rev)
    moreover have "\<not> is_space (hd (dropWhile is_space (rev ?d)))" using ne by (rule hd_dropWhile)
    ultimately have 2: "\<not> is_space (last ?r)" by simp
    from 1 2 show ?thesis by (simp only: trimmed_def simp_thms)
  qed
  show ?thesis unfolding r trimming_def using t s a b by blast
qed

lemma trimming_set: "trimming s r \<Longrightarrow> set r \<subseteq> set s"
  unfolding trimming_def by auto

lemma remove_unrecognized_characters_trimming:
  assumes "t \<noteq> []"
  shows "\<exists>r. remove_unrecognized_characters (Some t) = Some r \<and>
     trimming (newlines_to_spaces (squash t)) r"
  using assms py_strip_trimming by (simp add: remove_unrecognized_characters_eq)

lemma clean_empty: "clean []"
  by (simp add: clean_def trimmed_def)

lemma clean_removed: "clean (or_empty (remove_unrecognized_characters x))"
proof (cases x)
  case None
  then show ?thesis
    by (simp add: remove_unrecognized_characters_def nonempty_def or_empty_def clean_empty)
next
  case (Some t)
  show ?thesis
  proof (cases "t = []")
    case True
    with Some show ?thesis
      by (simp add: remove_unrecognized_characters_eq or_empty_def clean_empty)
  next
    case False
    let ?n = "newlines_to_spaces (squash t)"
    from remove_unrecognized_characters_trimming [OF False] obtain r where
      r: "remove_unrecognized_characters (Some t) = Some r" and tr: "trimming ?n r" by blast
    have e: "or_empty (remove_unrecognized_characters x) = r"
      using Some r by (simp add: or_empty_def)
    have "list_all is_ascii ?n" by (intro newlines_to_spaces_ascii squash_is_ascii)
    then have "list_all is_ascii r"
      using trimming_set [OF tr] by (auto simp: list_all_iff)
    moreover have "10 \<notin> set r"
      using trimming_set [OF tr] newlines_to_spaces_none [of "squash t"] by auto
    moreover from tr have "trimmed r" by (simp add: trimming_def)
    ultimately show ?thesis unfolding e clean_def by simp
  qed
qed

text \<open>
  Claim C9. In every assembled record, the \<open>duration_string\<close> and \<open>summary\<close> of the one
  experience entry and the \<open>work_experience\<close> field hold ASCII characters only, no
  newline, and no leading or trailing whitespace. They are produced by
  \<open>remove_unrecognized_characters\<close>: for a text that is not empty its result is the
  trimming of the text in which every maximal run of characters outside ASCII has become
  one space (\<open>squash\<close>) and every newline a space; an absent or empty text gives no result,
  and the field is then empty.
\<close>

theorem cleaned_fields:
  "(check_titles_and_extract_info file_content json_skills json_designations = Inr r \<longrightarrow>
      (\<exists>e. experience r = [e] \<and> clean (duration_string e) \<and> clean (summary e)) \<and>
      clean (work_experience r)) \<and>
   (t \<noteq> [] \<longrightarrow>
      (\<exists>r. remove_unrecognized_characters (Some t) = Some r \<and>
           trimming (newlines_to_spaces (squash t)) r)) \<and>
   remove_unrecognized_characters (Some []) = None \<and>
   remove_unrecognized_characters None = None"
proof (intro conjI impI)
  assume a: "check_titles_and_extract_info file_content json_skills json_designations = Inr r"
  then obtain d s w where
    "experience r = [\<lparr>title = title (hd (experience r)),
        amount_of_experience = amount_of_experience (hd (experience r)),
        duration_string = or_empty (remove_unrecognized_characters d),
        summary = or_empty (remove_unrecognized_characters s)\<rparr>]"
    "work_experience r = or_empty (remove_unrecognized_characters w)"
    by (auto simp: check_titles_and_extract_info_def Let_def
        split: sum.splits prod.splits option.splits)
  then show "\<exists>e. experience r = [e] \<and> clean (duration_string e) \<and> clean (summary e)"
    and "clean (work_experience r)"
    using clean_removed by (metis experience_entry.select_convs(3,4))+
next
  assume "t \<noteq> []"
  then show "\<exists>r. remove_unrecognized_characters (Some t) = Some r \<and>
      trimming (newlines_to_spaces (squash t)) r"
    by (rule remove_unrecognized_characters_trimming)
next
  show "remove_unrecognized_characters (Some []) = None"
    by (simp add: remove_unrecognized_characters_def nonempty_def)
next
  show "remove_unrecognized_characters None = None"
    by (simp add: remove_unrecognized_characters_def nonempty_def)
qed

definition dashed_cv :: ustr where
  "dashed_cv =
     u ''Summary'' @ [10] @ u ''A '' @ [8211, 10] @ u ''B '' @ [8211, 10] @ u ''Skills'' @ [10] @
     u ''5'' @ [10] @ u ''years'' @ [10] @ u ''JOBS'' @ [10, 8211] @ u ''x'' @ [8211] @ u ''y'' @ [10]"

lemma dashed_cv_record:
  "check_titles_and_extract_info dashed_cv (Some react_node_skills) (Some engineer_designations) =
   Inr \<lparr>name = u ''Summarya'', email = [], phone = [], skills = [], designation = [],
        experience = [\<lparr>title = [], amount_of_experience = 5, duration_string = u ''5 years'',
                       summary = u ''A   B''\<rparr>],
        work_experience = u ''x y''\<rparr>"
  by code_simp

text \<open>
  The theorem at a text whose summary, duration and work history hold dashes outside
  ASCII (code point 8211) and newlines: the summary section is \<open>A\<close>, a space and a dash,
  then \<open>B\<close>, a space and a dash on the next line; the duration is \<open>5\<close> and \<open>years\<close> on two
  lines; the work history is \<open>x\<close> and \<open>y\<close> with a dash before each. The fields of the
  record are \<open>A   B\<close>, \<open>5 years\<close> and \<open>x y\<close>. The cleaning of the work history alone turns
  the two dashes into spaces and removes the first.
\<close>

theorem cleaned_fields_witness:
  "check_titles_and_extract_info dashed_cv (Some react_node_skills) (Some engineer_designations) =
     Inr \<lparr>name = u ''Summarya'', email = [], phone = [], skills = [], designation = [],
        experience = [\<lparr>title = [], amount_of_experience = 5, duration_string = u ''5 years'',
                       summary = u ''A   B''\<rparr>],
        work_experience = u ''x y''\<rparr> \<and>
   clean (u ''5 years'') \<and> clean (u ''A   B'') \<and> clean (u ''x y'') \<and>
   [8211] @ u ''x'' @ [8211] @ u ''y'' \<noteq> [] \<and>
   newlines_to_spaces (squash ([8211] @ u ''x'' @ [8211] @ u ''y'')) = u '' x y'' \<and>
   remove_unrecognized_characters (Some ([8211] @ u ''x'' @ [8211] @ u ''y'')) = Some (u ''x y'') \<and>
   trimming (u '' x y'') (u ''x y'')"
proof -
  let ?R = "\<lparr>name = u ''Summarya'', email = [], phone = [], skills = [], designation = [],
        experience = [\<lparr>title = [], amount_of_experience = 5, duration_string = u ''5 years'',
                       summary = u ''A   B''\<rparr>],
        work_experience = u ''x y''\<rparr>"
  let ?t = "[8211] @ u ''x'' @ [8211] @ u ''y''"
  note e = dashed_cv_record
  have n: "?t \<noteq> []" by simp
  from cleaned_fields [of dashed_cv "Some react_node_skills" "Some engineer_designations" ?R ?t] e n
  have c: "\<exists>e. experience ?R = [e] \<and> clean (duration_string e) \<and> clean (summary e)"
    and w: "clean (work_experience ?R)"
    and r: "\<exists>r. remove_unrecognized_characters (Some ?t) = Some r \<and>
        trimming (newlines_to_spaces (squash ?t)) r"
    by blast+
  from c have 1: "clean (u ''5 years'')" "clean (u ''A   B'')" by auto
  from w have 2: "clean (u ''x y'')" by simp
  have 3: "newlines_to_spaces (squash ?t) = u '' x y''" by code_simp
  have 4: "remove_unrecognized_characters (Some ?t) = Some (u ''x y'')" by code_simp
  from r have 5: "trimming (u '' x y'') (u ''x y'')" unfolding 3 4 by simp
  from e 1 2 n 3 4 5 show ?thesis by blast
qed

section \<open>Shape of the record\<close>

lemma foldl_digits_nonneg:
  "list_all is_digit ds \<Longrightarrow> 0 \<le> a \<Longrightarrow> 0 \<le> foldl (\<lambda>a d. 10 * a + (d - 48)) (a::int) ds"
proof (induction ds arbitrary: a)
  case Nil
  then show ?case by simp
next
  case (Cons d ds)
  from Cons.prems have "48 \<le> d" by (simp add: is_digit_def)
  with Cons.prems have "0 \<le> 10 * a + (d - 48)" by simp
  with Cons show ?case by simp
qed

lemma digits_value_nonneg: "list_all is_digit ds \<Longrightarrow> 0 \<le> digits_value ds"
  unfolding digits_value_def by (rule foldl_digits_nonneg) simp_all

lemma takeWhile_digits_point:
  "list_all is_digit ip \<Longrightarrow> takeWhile (\<lambda>c. c \<noteq> 46) (ip @ 46 # fd) = ip"
  by (induction ip) (auto simp: is_digit_def)

lemma takeWhile_digits: "list_all is_digit ip \<Longrightarrow> takeWhile (\<lambda>c. c \<noteq> 46) ip = ip"
  by (induction ip) (auto simp: is_digit_def)

lemma float_of_number:
  "list_all is_digit ip \<Longrightarrow> float_of ip = of_int (digits_value ip)"
  "list_all is_digit ip \<Longrightarrow>
     float_of (ip @ u ''.'' @ fd) = of_int (digits_value ip) + of_int (digits_value fd) / 10 ^ length fd"
  by (simp_all add: float_of_def Let_def takeWhile_digits takeWhile_digits_point u_def
      digits_value_def)

lemma float_of_nonneg: "is_number num \<Longrightarrow> 0 \<le> float_of num"
proof -
  assume "is_number num"
  then obtain ip fp where n: "num = ip @ fp" "list_all is_digit ip"
    "fp = [] \<or> (\<exists>fd. fp = u ''.'' @ fd \<and> fd \<noteq> [] \<and> list_all is_digit fd)"
    unfolding is_number_def by blast
  from n(3) show ?thesis
  proof
    assume "fp = []"
    with n show ?thesis by (simp add: float_of_number(1) digits_value_nonneg)
  next
    assume "\<exists>fd. fp = u ''.'' @ fd \<and> fd \<noteq> [] \<and> list_all is_digit fd"
    then obtain fd where fd: "fp = u ''.'' @ fd" "list_all is_digit fd" by blast
    have "0 \<le> (of_int (digits_value ip) :: rat)" "0 \<le> (of_int (digits_value fd) :: rat)"
      using n(2) fd(2) by (simp_all add: digits_value_nonneg)
    then show ?thesis unfolding n(1) fd(1) float_of_number(2) [OF n(2)] by simp
  qed
qed

lemma amount_nonneg: "0 \<le> fst (extract_experience_duration text)"
proof (cases "has_duration text")
  case True
  from first_duration [OF True] obtain i num tail where
    "duration_at text i num tail" "extract_experience_duration text =
      (float_of num, newlines_to_spaces (num @ tail))" by blast
  then show ?thesis by (simp add: duration_at_def float_of_nonneg)
next
  case False
  then show ?thesis by (simp add: no_duration_default)
qed

lemma or_empty_None [simp]: "or_empty None = []"
  by (simp add: or_empty_def)

lemma check_and_collect_skills_ok:
  assumes "items \<noteq> []" "list_all (has_str (u ''title'')) items"
  shows "check_and_collect_skills s (Some items) =
     Inr (Some (filter (occurs s) (map (str_at (u ''title'')) items)))"
proof -
  from assms(1) obtain x xs where i: "items = x # xs" by (cases items) auto
  note c = collect_titles_ok [OF assms(2), of s, unfolded i]
  show ?thesis unfolding i check_and_collect_skills_def
    by (simp only: option.case list.case c sum.case)
qed

lemma extract_name_ok:
  assumes "list_all (has_str (u ''designation'')) items"
  shows "\<exists>n. extract_name s (Some items) = Inr n"
  unfolding extract_name_def check_and_collect_designation_ids_ok [OF assms]
  by (simp add: Let_def)

text \<open>
  Claim C1, as the code has it. The record type has exactly the seven keys, and the
  experience entry its four. For every text whose summary passes the escape decoder, every
  non-empty skill list whose entries carry a string title and every designation list whose
  entries carry a string designation, record assembly returns a record: its experience is
  a list of one entry with an amount that is not negative; \<open>email\<close>, \<open>phone\<close>,
  \<open>summary\<close> and \<open>work_experience\<close> are the empty string when their extractor finds
  nothing; \<open>skills\<close> and \<open>designation\<close> are the matched titles, the empty list when none
  matches, and the title of the entry is then the empty string; without a duration in the
  text the amount is 0 and \<open>duration_string\<close> is \<open>0\<close>, not the empty string.
\<close>

theorem record_shape:
  assumes "items \<noteq> []"
    and "list_all (has_str (u ''title'')) items"
    and "list_all (has_str (u ''designation'')) ditems"
    and "extract_summary_text text = Inr s"
  shows "\<exists>r e. check_titles_and_extract_info text (Some items) (Some ditems) = Inr r \<and>
     experience r = [e] \<and> 0 \<le> amount_of_experience e \<and>
     email r = or_empty (extract_email text) \<and>
     phone r = or_empty (extract_phone text) \<and>
     summary e = or_empty (remove_unrecognized_characters s) \<and>
     work_experience r = or_empty (remove_unrecognized_characters (extract_experience_text text)) \<and>
     skills r = sort (remdups (filter (occurs text) (map (str_at (u ''title'')) items))) \<and>
     designation r =
       sort_key (earliest text) (filter (occurs text) (map (str_at (u ''designation'')) ditems)) \<and>
     title e = primary (designation r) \<and>
     (extract_email text = None \<longrightarrow> email r = []) \<and>
     (extract_phone text = None \<longrightarrow> phone r = []) \<and>
     (s = None \<longrightarrow> summary e = []) \<and>
     (extract_experience_text text = None \<longrightarrow> work_experience r = []) \<and>
     (\<not> has_duration text \<longrightarrow> amount_of_experience e = 0 \<and> duration_string e = u ''0'')"
proof -
  from extract_name_ok [OF assms(3)] obtain n where n: "extract_name text (Some ditems) = Inr n"
    by blast
  obtain firstName lastName where nm: "n = (firstName, lastName)" by (cases n)
  let ?ds = "sort_key (earliest text) (filter (occurs text) (map (str_at (u ''designation'')) ditems))"
  let ?e = "\<lparr>title = primary ?ds,
      amount_of_experience = fst (extract_experience_duration text),
      duration_string =
        or_empty (remove_unrecognized_characters (Some (snd (extract_experience_duration text)))),
      summary = or_empty (remove_unrecognized_characters s)\<rparr>"
  let ?r = "\<lparr>name = py_title (py_replace (py_strip (firstName @ u '' '' @ lastName)) [10] (u '' '')),
      email = or_empty (extract_email text),
      phone = or_empty (extract_phone text),
      skills = sort (remdups (filter (occurs text) (map (str_at (u ''title'')) items))),
      designation = ?ds,
      experience = [?e],
      work_experience = or_empty (remove_unrecognized_characters (extract_experience_text text))\<rparr>"
  have r: "check_titles_and_extract_info text (Some items) (Some ditems) = Inr ?r"
    unfolding check_titles_and_extract_info_def n nm assms(4)
      check_and_collect_skills_ok [OF assms(1,2)]
      check_and_collect_designation_ids_ok [OF assms(3)]
    by (simp add: Let_def sorted_set_def)
  have zero: "remove_unrecognized_characters (Some (u ''0'')) = Some (u ''0'')" by code_simp
  have d: "\<not> has_duration text \<longrightarrow>
      amount_of_experience ?e = 0 \<and> duration_string ?e = u ''0''"
    by (simp add: no_duration_default zero or_empty_def)
  have none: "remove_unrecognized_characters None = None"
    by (simp add: remove_unrecognized_characters_def nonempty_def)
  show ?thesis
  proof (intro exI conjI)
    show "check_titles_and_extract_info text (Some items) (Some ditems) = Inr ?r" by (rule r)
    show "experience ?r = [?e]" by simp
    show "0 \<le> amount_of_experience ?e" by (simp add: amount_nonneg)
    show "email ?r = or_empty (extract_email text)" by simp
    show "phone ?r = or_empty (extract_phone text)" by simp
    show "summary ?e = or_empty (remove_unrecognized_characters s)" by simp
    show "work_experience ?r =
        or_empty (remove_unrecognized_characters (extract_experience_text text))" by simp
    show "skills ?r = sort (remdups (filter (occurs text) (map (str_at (u ''title'')) items)))"
      by simp
    show "designation ?r = ?ds" by simp
    show "title ?e = primary (designation ?r)" by simp
    show "extract_email text = None \<longrightarrow> email ?r = []" by simp
    show "extract_phone text = None \<longrightarrow> phone ?r = []" by simp
    show "s = None \<longrightarrow> summary ?e = []" by (simp add: none)
    show "extract_experience_text text = None \<longrightarrow> work_experience ?r = []" by (simp add: none)
    show "\<not> has_duration text \<longrightarrow>
        amount_of_experience ?e = 0 \<and> duration_string ?e = u ''0''" by (rule d)
  qed
qed

text \<open>
  The theorem at the text \<open>I use React and Node\<close>, which has no summary section, with
  the skill list \<open>[React, react, Node]\<close> and the designation list \<open>[Engineer]\<close>.
\<close>

theorem record_shape_witness:
  "react_node_skills \<noteq> [] \<and>
   list_all (has_str (u ''title'')) react_node_skills \<and>
   list_all (has_str (u ''designation'')) engineer_designations \<and>
   extract_summary_text (u ''I use React and Node'') = Inr None \<and>
   (\<exists>r e. check_titles_and_extract_info (u ''I use React and Node'') (Some react_node_skills)
        (Some engineer_designations) = Inr r \<and>
      experience r = [e] \<and> 0 \<le> amount_of_experience e \<and> summary e = [] \<and>
      email r = or_empty (extract_email (u ''I use React and Node'')))"
proof -
  have 1: "react_node_skills \<noteq> []" by (simp add: react_node_skills_def)
  have 2: "list_all (has_str (u ''title'')) react_node_skills" by code_simp
  have 3: "list_all (has_str (u ''designation'')) engineer_designations" by code_simp
  have 4: "extract_summary_text (u ''I use React and Node'') = Inr None" by code_simp
  from record_shape [OF 1 2 3 4] obtain r e where
    "check_titles_and_extract_info (u ''I use React and Node'') (Some react_node_skills)
        (Some engineer_designations) = Inr r"
    "experience r = [e]" "0 \<le> amount_of_experience e"
    "email r = or_empty (extract_email (u ''I use React and Node''))"
    "None = (None :: ustr option) \<longrightarrow> summary e = []"
    by blast
  with 1 2 3 4 show ?thesis by blast
qed

text \<open>
  The claim fails for a skill list that is present but empty, also on the empty text:
  \<open>check_and_collect_skills\<close> then returns \<open>None\<close>, and \<open>set(None)\<close> raises
  \<open>TypeError\<close> while the record is built.
\<close>

theorem record_shape_empty_skill_list:
  "check_titles_and_extract_info [] (Some []) (Some []) = Inl TypeError"
  by code_simp

text \<open>
  A summary with a backslash that does not start a complete escape stops record assembly
  as well: the decoder raises on \<open>\U\<close> followed by letters.
\<close>

lemma record_escape_error:
  "check_titles_and_extract_info
     (u ''Summary'' @ [10] @ u ''C:'' @ [92] @ u ''Users'' @ [10] @ u ''Education'')
     (Some react_node_skills) (Some engineer_designations) = Inl UnicodeDecodeError"
  by code_simp

section \<open>Reference data synchronisation (main.py, save\_url\_as\_json\_async)\<close>

text \<open>
  A cache file and a response body are represented by what \<open>json.load\<close> makes of their
  text: a JSON value, or text that is not JSON. The MD5 digests that the function compares
  are represented by the contents themselves (no collisions).
\<close>

datatype content = Data json | Malformed

datatype outcome = Responded nat content | RequestError

type_synonym caches = "ustr \<rightharpoonup> content"

text \<open>\<open>for item in data\<close>: what iterating a loaded JSON value yields.\<close>

fun iterate :: "json \<Rightarrow> error + json list" where
  "iterate (JArr xs) = Inr xs"
| "iterate (JObj kvs) = Inr (map (\<lambda>kv. JStr (fst kv)) kvs)"
| "iterate (JStr s) = Inr (map (\<lambda>c. JStr [c]) s)"
| "iterate v = Inl TypeError"

definition json_load :: "content \<Rightarrow> error + json" where
  "json_load c = (case c of Data v \<Rightarrow> Inr v | Malformed \<Rightarrow> Inl JSONDecodeError)"

definition load_and_remove_duplicates :: "content \<Rightarrow> error + json list option" where
  "load_and_remove_duplicates c =
     (case json_load c of
        Inl e \<Rightarrow> Inl e
      | Inr data \<Rightarrow>
          (case iterate data of
             Inl e \<Rightarrow> Inl e
           | Inr xs \<Rightarrow> Inr (Some (remove_duplicates xs))))"

definition save_url_as_json_async ::
    "outcome \<Rightarrow> caches \<Rightarrow> ustr \<Rightarrow> (error + json list option) \<times> caches" where
  "save_url_as_json_async fetched files output_file =
     (case fetched of
        RequestError \<Rightarrow> (Inr None, files)
      | Responded status_code body \<Rightarrow>
          (if status_code \<noteq> 200
           then (case files output_file of
                   Some cached \<Rightarrow> (load_and_remove_duplicates cached, files)
                 | None \<Rightarrow> (Inr None, files))
           else
             (let files = files(output_file \<mapsto> body);
                  downloaded_hash = Some body;
                  local_hash = files output_file
              in if downloaded_hash = local_hash
                 then (case files output_file of
                         Some cached \<Rightarrow> (load_and_remove_duplicates cached, files)
                       | None \<Rightarrow> (Inr None, files))
                 else (case json_load body of
                         Inl e \<Rightarrow> (Inl e, files)
                       | Inr data \<Rightarrow>
                           (case iterate data of
                              Inl e \<Rightarrow> (Inl e, files(output_file \<mapsto> Data data))
                            | Inr xs \<Rightarrow>
                                (Inr (Some (remove_duplicates xs)),
                                 files(output_file \<mapsto> Data data)))))))"

section \<open>Failed fetches\<close>

text \<open>
  On a response whose status is not 200 (every non-2xx response is one), a cache file that
  holds a JSON list is loaded and deduplicated, and without a cache file the result is
  absent. On a transport error the result is absent whether or not a cache file exists.
  No file is written in any of these cases.
\<close>

lemma failed_fetch:
  "(status_code \<noteq> 200 \<and> files output_file = Some (Data (JArr xs)) \<longrightarrow>
      save_url_as_json_async (Responded status_code body) files output_file =
        (Inr (Some (remove_duplicates xs)), files)) \<and>
   (status_code \<noteq> 200 \<and> files output_file = None \<longrightarrow>
      save_url_as_json_async (Responded status_code body) files output_file = (Inr None, files)) \<and>
   save_url_as_json_async RequestError files output_file = (Inr None, files)"
  by (simp add: save_url_as_json_async_def load_and_remove_duplicates_def json_load_def)

definition skills_cache :: caches where
  "skills_cache = Map.empty(u ''skills-collection.json'' \<mapsto>
     Data (JArr [JObj [(u ''title'', JStr (u ''React''))], JObj [(u ''title'', JStr (u ''React''))]]))"

text \<open>
  Claim C3 does not hold of the code. With a cache file of two equal entries in place, a
  response of status 503 gives the one entry of the cache, and a transport error gives
  nothing: the handler of \<open>httpx.RequestError\<close> returns \<open>None\<close> without looking at the
  cache, where the branch for a status other than 200 loads it.
\<close>

theorem transport_error_ignores_cache:
  "save_url_as_json_async (Responded 503 Malformed) skills_cache (u ''skills-collection.json'') =
     (Inr (Some [JObj [(u ''title'', JStr (u ''React''))]]), skills_cache) \<and>
   save_url_as_json_async RequestError skills_cache (u ''skills-collection.json'') =
     (Inr None, skills_cache)"
proof -
  have d: "remove_duplicates [JObj [(u ''title'', JStr (u ''React''))],
      JObj [(u ''title'', JStr (u ''React''))]] = [JObj [(u ''title'', JStr (u ''React''))]]"
    by code_simp
  show ?thesis
    by (simp add: save_url_as_json_async_def load_and_remove_duplicates_def json_load_def
        skills_cache_def d)
qed

section \<open>The pipeline for one document (main.py, extract\_text)\<close>

text \<open>
  The files of the pipeline are of three kinds, kept apart here as the code keeps their
  names apart: the two cache files, the text file of a document, and the record written
  beside it.
\<close>

record world =
  cache_files :: caches
  text_files :: "ustr \<rightharpoonup> ustr"
  info_files :: "ustr \<rightharpoonup> extracted_info"

definition written_line :: "ustr \<Rightarrow> ustr" where
  "written_line line =
     (case remove_unrecognized_characters (Some (py_replace line [61607] [])) of
        None \<Rightarrow> []
      | Some cleaned \<Rightarrow> cleaned @ [10])"

fun get_or :: "json \<Rightarrow> ustr \<Rightarrow> json \<Rightarrow> error + json" where
  "get_or (JObj kvs) k d = Inr (case map_of kvs k of None \<Rightarrow> d | Some v \<Rightarrow> v)"
| "get_or v k d = Inl AttributeError"

fun gets_or :: "ustr \<Rightarrow> json \<Rightarrow> json list \<Rightarrow> error + json list" where
  "gets_or k d [] = Inr []"
| "gets_or k d (item # items) =
     (case get_or item k d of
        Inl e \<Rightarrow> Inl e
      | Inr v \<Rightarrow> (case gets_or k d items of Inl e \<Rightarrow> Inl e | Inr vs \<Rightarrow> Inr (v # vs)))"

text \<open>
  The loop that waits for the designation list. \<open>fetches n\<close> is what the \<open>n\<close>-th request
  meets. The loop has no bound; where it never ends, the value is \<open>None\<close>.
\<close>

partial_function (option) acquire_designations ::
    "(nat \<Rightarrow> outcome) \<Rightarrow> nat \<Rightarrow> caches \<Rightarrow> ((error + json list) \<times> caches) option" where
  "acquire_designations fetches n files =
     (case save_url_as_json_async (fetches n) files (u ''designations-collection.json'') of
        (Inl e, files') \<Rightarrow> Some (Inl e, files')
      | (Inr None, files') \<Rightarrow> acquire_designations fetches (Suc n) files'
      | (Inr (Some data), files') \<Rightarrow> Some (Inr data, files'))"

definition skill_titles_of :: "json list option \<Rightarrow> error + json list" where
  "skill_titles_of acquired_skill_data =
     (case acquired_skill_data of
        None \<Rightarrow> Inr []
      | Some [] \<Rightarrow> Inr []
      | Some items \<Rightarrow> getitems (u ''title'') items)"

definition text_path :: "ustr \<Rightarrow> ustr" where
  "text_path file_name = u ''resume-data/'' @ file_name @ u ''/'' @ file_name @ u ''.txt''"

definition info_path :: "ustr \<Rightarrow> ustr" where
  "info_path text_file_path = text_file_path @ u ''_extracted_info.json''"

definition extract_text ::
    "outcome \<Rightarrow> (nat \<Rightarrow> outcome) \<Rightarrow> ustr \<Rightarrow> ustr list option \<Rightarrow> world \<Rightarrow>
       (error + ustr \<times> world) option" where
  "extract_text skill_fetch designation_fetches file_name content w =
     (case content of
        None \<Rightarrow> Some (Inl TypeError)
      | Some lines \<Rightarrow>
     (let pdf_name = text_path file_name;
          file_content = concat (map written_line lines);
          w = w\<lparr>text_files := (text_files w)(pdf_name \<mapsto> file_content)\<rparr>
      in case save_url_as_json_async skill_fetch (cache_files w) (u ''skills-collection.json'') of
        (Inl e, files) \<Rightarrow> Some (Inl e)
      | (Inr acquired_skill_data, files) \<Rightarrow>
     (case skill_titles_of acquired_skill_data of
        Inl e \<Rightarrow> Some (Inl e)
      | Inr skill_titles \<Rightarrow>
     (case acquire_designations designation_fetches 0 files of
        None \<Rightarrow> None
      | Some (Inl e, files) \<Rightarrow> Some (Inl e)
      | Some (Inr acquired_designation_data, files) \<Rightarrow>
     (case gets_or (u ''designation'') (JStr []) acquired_designation_data of
        Inl e \<Rightarrow> Some (Inl e)
      | Inr designation_titles \<Rightarrow>
          (let w = w\<lparr>cache_files := files\<rparr>
           in if skill_titles \<noteq> [] \<and> designation_titles \<noteq> []
              then (case check_titles_and_extract_info file_content acquired_skill_data
                           (Some acquired_designation_data) of
                      Inl e \<Rightarrow> Some (Inl e)
                    | Inr info \<Rightarrow>
                        Some (Inr (pdf_name,
                          w\<lparr>info_files := (info_files w)(info_path pdf_name \<mapsto> info)\<rparr>)))
              else Some (Inr (pdf_name, w))))))))"

section \<open>Failed reference data\<close>

definition fails :: "outcome \<Rightarrow> caches \<Rightarrow> ustr \<Rightarrow> bool" where
  "fails fetched files output_file =
     (case fetched of
        RequestError \<Rightarrow> True
      | Responded status_code body \<Rightarrow> status_code \<noteq> 200 \<and> files output_file = None)"

lemma fails_None:
  "fails fetched files output_file \<Longrightarrow>
   save_url_as_json_async fetched files output_file = (Inr None, files)"
  by (cases fetched) (simp_all add: fails_def save_url_as_json_async_def)

lemma acquire_designations_never:
  assumes all: "\<forall>k. fails (fetches k) files (u ''designations-collection.json'')"
  shows "acquire_designations fetches n files = None"
proof (rule ccontr)
  assume "acquire_designations fetches n files \<noteq> None"
  then obtain y where y: "acquire_designations fetches n files = Some y" by blast
  have "\<not> (fetches = fetches \<and> files = files)"
  proof (rule acquire_designations.raw_induct
      [where P = "\<lambda>f n fs y. \<not> (f = fetches \<and> fs = files)", OF _ y])
    fix acq f m fs z
    assume ih: "\<And>m fs b z. acq m fs b = Some z \<Longrightarrow> \<not> (m = fetches \<and> b = files)"
      and body: "(case save_url_as_json_async (f m) fs (u ''designations-collection.json'') of
          (Inl e, files') \<Rightarrow> Some (Inl e, files')
        | (Inr None, files') \<Rightarrow> acq f (Suc m) files'
        | (Inr (Some data), files') \<Rightarrow> Some (Inr data, files')) = Some z"
    show "\<not> (f = fetches \<and> fs = files)"
    proof
      assume e: "f = fetches \<and> fs = files"
      with all have "fails (f m) fs (u ''designations-collection.json'')" by blast
      from fails_None [OF this] body have "acq f (Suc m) fs = Some z" by simp
      from ih [OF this] e show False by blast
    qed
  qed
  then show False by simp
qed

lemma extract_text_never:
  assumes "fails skill_fetch (cache_files w) (u ''skills-collection.json'')"
    and "\<forall>n. fails (designation_fetches n) (cache_files w) (u ''designations-collection.json'')"
  shows "extract_text skill_fetch designation_fetches file_name (Some lines) w = None"
  unfolding extract_text_def
  by (simp add: Let_def fails_None [OF assms(1)] skill_titles_of_def
      acquire_designations_never [OF assms(2)])

lemma extract_text_no_record:
  assumes "fails skill_fetch (cache_files w) (u ''skills-collection.json'')"
    and "extract_text skill_fetch designation_fetches file_name content w = Some (Inr (p, w'))"
  shows "info_files w' = info_files w"
  using assms(2) unfolding extract_text_def
  by (auto simp: Let_def fails_None [OF assms(1)] skill_titles_of_def
      split: option.splits sum.splits prod.splits)

lemma acquire_designations_after:
  assumes "\<forall>j<k. fails (fetches (n + j)) files (u ''designations-collection.json'')"
    and "save_url_as_json_async (fetches (n + k)) files (u ''designations-collection.json'') =
           (Inr (Some ds), files')"
  shows "acquire_designations fetches n files = Some (Inr ds, files')"
  using assms
proof (induction k arbitrary: n)
  case 0
  then show ?case by (subst acquire_designations.simps) simp
next
  case (Suc k)
  from Suc.prems(1) have "fails (fetches (n + 0)) files (u ''designations-collection.json'')"
    by blast
  then have "fails (fetches n) files (u ''designations-collection.json'')" by simp
  from fails_None [OF this]
  have step: "acquire_designations fetches n files = acquire_designations fetches (Suc n) files"
    by (subst acquire_designations.simps) simp
  have "\<forall>j<k. fails (fetches (Suc n + j)) files (u ''designations-collection.json'')"
  proof (intro allI impI)
    fix j assume "j < k"
    then have "Suc j < Suc k" by simp
    with Suc.prems(1) have "fails (fetches (n + Suc j)) files (u ''designations-collection.json'')"
      by blast
    then show "fails (fetches (Suc n + j)) files (u ''designations-collection.json'')" by simp
  qed
  moreover from Suc.prems(2)
  have "save_url_as_json_async (fetches (Suc n + k)) files (u ''designations-collection.json'') =
      (Inr (Some ds), files')" by simp
  ultimately have "acquire_designations fetches (Suc n) files = Some (Inr ds, files')"
    by (rule Suc.IH)
  with step show ?case by simp
qed

lemma extract_text_skips_record:
  assumes "fails skill_fetch (cache_files w) (u ''skills-collection.json'')"
    and "\<forall>j<k. fails (designation_fetches j) (cache_files w) (u ''designations-collection.json'')"
    and "save_url_as_json_async (designation_fetches k) (cache_files w)
           (u ''designations-collection.json'') = (Inr (Some ds), files')"
    and "gets_or (u ''designation'') (JStr []) ds = Inr ts"
  shows "extract_text skill_fetch designation_fetches file_name (Some lines) w =
     Some (Inr (text_path file_name,
       w\<lparr>text_files := (text_files w)(text_path file_name \<mapsto> concat (map written_line lines)),
         cache_files := files'\<rparr>))"
proof -
  have "acquire_designations designation_fetches 0 (cache_files w) = Some (Inr ds, files')"
    by (rule acquire_designations_after [where k = k]) (simp_all add: assms(2,3))
  then show ?thesis
    unfolding extract_text_def
    by (simp add: Let_def fails_None [OF assms(1)] skill_titles_of_def assms(4))
qed

text \<open>
  Claim C6, as the code has it. A fetch fails when it meets a transport error, or a status
  other than 200 with no cache file. When the skill fetch fails, the skill list is treated
  as empty and \<open>extract_text\<close> skips record assembly. Whenever it returns, it has written no
  record, so there is no \<open>skills\<close> or \<open>designation\<close> field at all. When the designation
  list arrives after \<open>k\<close> failed fetches and its entries are objects, \<open>extract_text\<close> returns
  the path of the text file without an error, having written the text file and no more
  than what the designation fetch wrote to its cache. When every designation fetch fails,
  \<open>extract_text\<close> polls for ever and does not return.
\<close>

theorem failed_reference_data:
  "(fails skill_fetch (cache_files w) (u ''skills-collection.json'') \<and>
    extract_text skill_fetch designation_fetches file_name content w = Some (Inr (p, w')) \<longrightarrow>
      info_files w' = info_files w) \<and>
   (fails skill_fetch (cache_files w) (u ''skills-collection.json'') \<and>
    (\<forall>j<k. fails (designation_fetches j) (cache_files w) (u ''designations-collection.json'')) \<and>
    save_url_as_json_async (designation_fetches k) (cache_files w)
      (u ''designations-collection.json'') = (Inr (Some ds), files') \<and>
    gets_or (u ''designation'') (JStr []) ds = Inr ts \<longrightarrow>
      extract_text skill_fetch designation_fetches file_name (Some lines) w =
        Some (Inr (text_path file_name,
          w\<lparr>text_files := (text_files w)(text_path file_name \<mapsto> concat (map written_line lines)),
            cache_files := files'\<rparr>))) \<and>
   (fails skill_fetch (cache_files w) (u ''skills-collection.json'') \<and>
    (\<forall>n. fails (designation_fetches n) (cache_files w) (u ''designations-collection.json'')) \<longrightarrow>
      extract_text skill_fetch designation_fetches file_name (Some lines) w = None)"
proof (intro conjI impI)
  assume "fails skill_fetch (cache_files w) (u ''skills-collection.json'') \<and>
    extract_text skill_fetch designation_fetches file_name content w = Some (Inr (p, w'))"
  then show "info_files w' = info_files w" using extract_text_no_record by blast
next
  assume a: "fails skill_fetch (cache_files w) (u ''skills-collection.json'') \<and>
    (\<forall>j<k. fails (designation_fetches j) (cache_files w) (u ''designations-collection.json'')) \<and>
    save_url_as_json_async (designation_fetches k) (cache_files w)
      (u ''designations-collection.json'') = (Inr (Some ds), files') \<and>
    gets_or (u ''designation'') (JStr []) ds = Inr ts"
  show "extract_text skill_fetch designation_fetches file_name (Some lines) w =
        Some (Inr (text_path file_name,
          w\<lparr>text_files := (text_files w)(text_path file_name \<mapsto> concat (map written_line lines)),
            cache_files := files'\<rparr>))"
    by (rule extract_text_skips_record [where k = k and ds = ds and ts = ts]) (simp_all add: a)
next
  assume "fails skill_fetch (cache_files w) (u ''skills-collection.json'') \<and>
    (\<forall>n. fails (designation_fetches n) (cache_files w) (u ''designations-collection.json''))"
  then show "extract_text skill_fetch designation_fetches file_name (Some lines) w = None"
    using extract_text_never by blast
qed

definition no_files :: world where
  "no_files = \<lparr>cache_files = Map.empty, text_files = Map.empty, info_files = Map.empty\<rparr>"

definition designations_served :: "nat \<Rightarrow> outcome" where
  "designations_served n = Responded 200 (Data (JArr engineer_designations))"

lemma skills_fail_run:
  "extract_text RequestError designations_served (u ''cv'') (Some [u ''John Smith'']) no_files =
     Some (Inr (text_path (u ''cv''),
       \<lparr>cache_files = Map.empty(u ''designations-collection.json'' \<mapsto>
            Data (JArr engineer_designations)),
        text_files = Map.empty(text_path (u ''cv'') \<mapsto> u ''John Smith'' @ [10]),
        info_files = Map.empty\<rparr>))"
proof -
  have d: "remove_duplicates engineer_designations = engineer_designations" by code_simp
  have l: "written_line (u ''John Smith'') = u ''John Smith'' @ [10]" by code_simp
  have g: "gets_or (u ''designation'') (JStr []) engineer_designations =
      Inr [JStr (u ''Engineer'')]" by code_simp
  have a: "acquire_designations designations_served 0 Map.empty =
      Some (Inr engineer_designations,
        Map.empty(u ''designations-collection.json'' \<mapsto> Data (JArr engineer_designations)))"
    by (subst acquire_designations.simps)
      (simp add: designations_served_def save_url_as_json_async_def
        load_and_remove_duplicates_def json_load_def d)
  show ?thesis
    unfolding extract_text_def
    by (simp add: Let_def no_files_def save_url_as_json_async_def skill_titles_of_def a g l)
qed

definition designations_late :: "nat \<Rightarrow> outcome" where
  "designations_late n =
     (if n = 0 then RequestError else Responded 200 (Data (JArr engineer_designations)))"

text \<open>
  The theorem where the skill fetch meets a transport error and there is no cache file:
  with the designation list served at once, the run returns and there is no record; with
  the designation list served at the second request, the run returns the path of the text
  file, having written the text file and the designation cache only; with every designation
  fetch failing as well, it does not return.
\<close>

theorem failed_reference_data_witness:
  "fails RequestError (cache_files no_files) (u ''skills-collection.json'') \<and>
   extract_text RequestError designations_served (u ''cv'') (Some [u ''John Smith'']) no_files =
     Some (Inr (text_path (u ''cv''),
       \<lparr>cache_files = Map.empty(u ''designations-collection.json'' \<mapsto>
            Data (JArr engineer_designations)),
        text_files = Map.empty(text_path (u ''cv'') \<mapsto> u ''John Smith'' @ [10]),
        info_files = Map.empty\<rparr>)) \<and>
   info_files \<lparr>cache_files = Map.empty(u ''designations-collection.json'' \<mapsto>
            Data (JArr engineer_designations)),
        text_files = Map.empty(text_path (u ''cv'') \<mapsto> u ''John Smith'' @ [10]),
        info_files = Map.empty\<rparr> = info_files no_files \<and>
   list_all (\<lambda>j. fails (designations_late j) (cache_files no_files)
      (u ''designations-collection.json'')) [0..<1] \<and>
   save_url_as_json_async (designations_late 1) (cache_files no_files)
      (u ''designations-collection.json'') =
     (Inr (Some engineer_designations),
      Map.empty(u ''designations-collection.json'' \<mapsto> Data (JArr engineer_designations))) \<and>
   gets_or (u ''designation'') (JStr []) engineer_designations = Inr [JStr (u ''Engineer'')] \<and>
   extract_text RequestError designations_late (u ''cv'') (Some [u ''John Smith'']) no_files =
     Some (Inr (text_path (u ''cv''),
       \<lparr>cache_files = Map.empty(u ''designations-collection.json'' \<mapsto>
            Data (JArr engineer_designations)),
        text_files = Map.empty(text_path (u ''cv'') \<mapsto> u ''John Smith'' @ [10]),
        info_files = Map.empty\<rparr>)) \<and>
   (\<forall>n. fails RequestError (cache_files no_files) (u ''designations-collection.json'')) \<and>
   extract_text RequestError (\<lambda>n. RequestError) (u ''cv'') (Some [u ''John Smith'']) no_files = None"
proof -
  let ?w = "\<lparr>cache_files = Map.empty(u ''designations-collection.json'' \<mapsto>
            Data (JArr engineer_designations)),
        text_files = Map.empty(text_path (u ''cv'') \<mapsto> u ''John Smith'' @ [10]),
        info_files = Map.empty\<rparr>"
  have 1: "fails RequestError (cache_files no_files) (u ''skills-collection.json'')"
    by (simp add: fails_def)
  have 2: "\<forall>n. fails RequestError (cache_files no_files) (u ''designations-collection.json'')"
    by (simp add: fails_def)
  note 3 = skills_fail_run
  from failed_reference_data [of RequestError no_files designations_served "u ''cv''"
      "Some [u ''John Smith'']" "text_path (u ''cv'')" ?w] 1 3
  have 4: "info_files ?w = info_files no_files" by blast
  from failed_reference_data [of RequestError no_files "\<lambda>n. RequestError" "u ''cv''" _ _ _ _ _ _ _
      "[u ''John Smith'']"] 1 2
  have 5: "extract_text RequestError (\<lambda>n. RequestError) (u ''cv'') (Some [u ''John Smith''])
      no_files = None" by blast
  have 6: "\<forall>j<1. fails (designations_late j) (cache_files no_files)
      (u ''designations-collection.json'')"
    by (simp add: fails_def designations_late_def)
  have 10: "list_all (\<lambda>j. fails (designations_late j) (cache_files no_files)
      (u ''designations-collection.json'')) [0..<1]"
    by (simp add: fails_def designations_late_def)
  have d: "remove_duplicates engineer_designations = engineer_designations" by code_simp
  have 7: "save_url_as_json_async (designations_late 1) (cache_files no_files)
      (u ''designations-collection.json'') =
     (Inr (Some engineer_designations),
      Map.empty(u ''designations-collection.json'' \<mapsto> Data (JArr engineer_designations)))"
    by (simp add: designations_late_def no_files_def save_url_as_json_async_def
        load_and_remove_duplicates_def json_load_def d)
  have 8: "gets_or (u ''designation'') (JStr []) engineer_designations =
      Inr [JStr (u ''Engineer'')]" by code_simp
  have l: "written_line (u ''John Smith'') = u ''John Smith'' @ [10]" by code_simp
  from failed_reference_data [of RequestError no_files designations_late "u ''cv''" _ _ _
      1 engineer_designations
      "Map.empty(u ''designations-collection.json'' \<mapsto> Data (JArr engineer_designations))"
      "[JStr (u ''Engineer'')]" "[u ''John Smith'']"] 1 6 7 8
  have "extract_text RequestError designations_late (u ''cv'') (Some [u ''John Smith'']) no_files =
     Some (Inr (text_path (u ''cv''),
       no_files\<lparr>text_files := (text_files no_files)(text_path (u ''cv'') \<mapsto>
           concat (map written_line [u ''John Smith''])),
         cache_files := Map.empty(u ''designations-collection.json'' \<mapsto>
           Data (JArr engineer_designations))\<rparr>))"
    by blast
  then have 9: "extract_text RequestError designations_late (u ''cv'') (Some [u ''John Smith''])
      no_files = Some (Inr (text_path (u ''cv''), ?w))"
    by (simp add: no_files_def l)
  from 1 2 3 4 5 10 7 8 9 show ?thesis by blast
qed

definition cv_written :: world where
  "cv_written =
     \<lparr>cache_files = Map.empty(u ''designations-collection.json'' \<mapsto>
          Data (JArr engineer_designations)),
      text_files = Map.empty(text_path (u ''cv'') \<mapsto> u ''John Smith'' @ [10]),
      info_files = Map.empty\<rparr>"

text \<open>
  The claim fails: with the skill fetch failed and no cache, the run for a document
  returns and leaves no record at the record's path, where the claim has a record with
  empty \<open>skills\<close>.
\<close>

theorem failed_skills_no_record:
  "extract_text RequestError designations_served (u ''cv'') (Some [u ''John Smith'']) no_files =
     Some (Inr (text_path (u ''cv''), cv_written)) \<and>
   info_files cv_written (info_path (text_path (u ''cv''))) = None"
  unfolding skills_fail_run by (simp add: cv_written_def)

section \<open>Designation entries without the key\<close>

definition untitled_designations :: "json list" where
  "untitled_designations =
     [JObj [(u ''designation'', JStr (u ''Engineer''))], JObj [(u ''title'', JStr (u ''Manager''))]]"

definition skills_served :: outcome where
  "skills_served = Responded 200 (Data (JArr react_node_skills))"

definition untitled_served :: "nat \<Rightarrow> outcome" where
  "untitled_served n = Responded 200 (Data (JArr untitled_designations))"

lemma untitled_acquired:
  "acquire_designations untitled_served 0 files =
     Some (Inr untitled_designations,
       files(u ''designations-collection.json'' \<mapsto> Data (JArr untitled_designations)))"
proof -
  have d: "remove_duplicates untitled_designations = untitled_designations" by code_simp
  show ?thesis
    by (subst acquire_designations.simps)
      (simp add: untitled_served_def save_url_as_json_async_def
        load_and_remove_duplicates_def json_load_def d)
qed

text \<open>
  Claim C5 does not hold of the code. For the text \<open>Senior Engineer\<close> and a designation
  list whose second entry has no \<open>designation\<close> key, the claim has the result
  \<open>[Engineer]\<close> with primary title \<open>Engineer\<close>; \<open>check_and_collect_designation_ids\<close>
  raises \<open>KeyError\<close>, because it reads \<open>item["designation"]\<close>. \<open>extract_text\<close> reads the
  same list with \<open>item.get("designation", "")\<close>, finds two titles, passes the list on to
  record assembly, and the error ends the run for the document.
\<close>

theorem designation_entry_without_key:
  "check_and_collect_designation_ids (u ''Senior Engineer'') (Some untitled_designations) =
     Inl KeyError \<and>
   gets_or (u ''designation'') (JStr []) untitled_designations =
     Inr [JStr (u ''Engineer''), JStr []] \<and>
   extract_text skills_served untitled_served (u ''cv'') (Some [u ''Senior Engineer'']) no_files =
     Some (Inl KeyError)"
proof -
  have 1: "check_and_collect_designation_ids (u ''Senior Engineer'') (Some untitled_designations) =
      Inl KeyError" by code_simp
  have 2: "gets_or (u ''designation'') (JStr []) untitled_designations =
      Inr [JStr (u ''Engineer''), JStr []]" by code_simp
  have s: "save_url_as_json_async skills_served Map.empty (u ''skills-collection.json'') =
      (Inr (Some react_node_skills),
       Map.empty(u ''skills-collection.json'' \<mapsto> Data (JArr react_node_skills)))"
  proof -
    have d: "remove_duplicates react_node_skills = react_node_skills" by code_simp
    show ?thesis
      by (simp add: skills_served_def save_url_as_json_async_def
          load_and_remove_duplicates_def json_load_def d)
  qed
  have t: "skill_titles_of (Some react_node_skills) =
      Inr [JStr (u ''React''), JStr (u ''react''), JStr (u ''Node'')]" by code_simp
  have l: "written_line (u ''Senior Engineer'') = u ''Senior Engineer'' @ [10]" by code_simp
  have c: "check_titles_and_extract_info (u ''Senior Engineer'' @ [10]) (Some react_node_skills)
      (Some untitled_designations) = Inl KeyError" by code_simp
  have 3: "extract_text skills_served untitled_served (u ''cv'') (Some [u ''Senior Engineer''])
      no_files = Some (Inl KeyError)"
    unfolding extract_text_def
    by (simp add: Let_def no_files_def s t untitled_acquired 2 l c)
  from 1 2 3 show ?thesis by blast
qed

end
